theory Spec2Isabelle
  imports Main "HOL-Library.AList"
begin

section \<open>The CSV parser of omnidata: data model\<close>

text \<open>
  The class \<open>CSVParser\<close> is embedded as a record of its private fields and one function
  per method. A JavaScript string is a sequence of code units, here a \<open>string\<close>; indexing a
  string out of range yields \<open>undefined\<close>, here \<open>None\<close>. The counters are JavaScript numbers
  that only ever start at 0 or 1 and are incremented, here \<open>nat\<close>.
\<close>

abbreviation DQ :: char where "DQ \<equiv> CHR 0x22"
abbreviation LF :: char where "LF \<equiv> CHR 0x0A"
abbreviation CR :: char where "CR \<equiv> CHR 0x0D"

text \<open>The option \<open>headers?: boolean | string[]\<close>.\<close>

datatype headersOption = HBool bool | HList "string list"

text \<open>
  \<open>Required<CSVParseOptions>\<close>, after the constructor has filled in the defaults. The
  fields \<open>encoding\<close> and \<open>chunkSize\<close> are never read by a method of the class and are left
  out. \<open>delimiter\<close>, \<open>quote\<close> and \<open>escape\<close> are strings in the source, of any length; a
  character of the input is compared with them by \<open>===\<close>.
\<close>

record options =
  delimiter :: string
  quote :: string
  escape :: string
  skipEmptyLines :: bool
  headersOpt :: headersOption

definition defaultOptions :: options where
  "defaultOptions = \<lparr> delimiter = '','', quote = [DQ], escape = [DQ],
     skipEmptyLines = True, headersOpt = HBool False \<rparr>"

record CSVError =
  line :: nat
  column :: nat
  message :: string

text \<open>
  A row handed to \<open>onRow\<close> is a \<open>string[]\<close> or a \<open>CSVRow\<close> object. The object is kept as
  the list of its own properties, each key once, in the order in which JavaScript
  enumerates them (\<open>Object.keys\<close>); reading an own property is \<open>map_of\<close>. How an
  assignment changes the list is \<open>setProperty\<close> below.
\<close>

datatype row = Fields "string list" | Obj "(string \<times> string) list"

text \<open>The calls made on the callbacks of \<open>streamOptions\<close>.\<close>

datatype event =
    OnHeaders "string list"
  | OnRow row nat
  | OnEnd nat "CSVError list"

text \<open>
  The private fields of \<open>CSVParser\<close>. The last field, \<open>emitted\<close>, is not a field of the
  class: it is the sequence of callback calls the methods have made on the \<open>streamOptions\<close>
  they were given, oldest first, as an observer supplying every callback sees them.
\<close>

record CSVParser =
  options :: options
  buffer :: string
  currentLine :: nat
  currentColumn :: nat
  inQuotes :: bool
  currentField :: string
  currentRow :: "string list"
  headers :: "string list option"
  errors :: "CSVError list"
  rowIndex :: nat
  bufferIndex :: nat
  emitted :: "event list"

definition newCSVParser :: "options \<Rightarrow> CSVParser" where
  "newCSVParser opts = \<lparr> options = opts, buffer = [], currentLine = 1, currentColumn = 1,
     inQuotes = False, currentField = [], currentRow = [], headers = None, errors = [],
     rowIndex = 0, bufferIndex = 0, emitted = [] \<rparr>"

section \<open>The methods\<close>

definition reset :: "CSVParser \<Rightarrow> CSVParser" where
  "reset p = p\<lparr> buffer := [], currentLine := 1, currentColumn := 1, inQuotes := False,
     currentField := [], currentRow := [], headers := None, errors := [], rowIndex := 0,
     bufferIndex := 0 \<rparr>"

definition addError :: "string \<Rightarrow> CSVParser \<Rightarrow> CSVParser" where
  "addError msg p = p\<lparr> errors := errors p @
     [\<lparr> line = currentLine p, column = currentColumn p, message = msg \<rparr>] \<rparr>"

definition resetRow :: "CSVParser \<Rightarrow> CSVParser" where
  "resetRow p = p\<lparr> currentRow := [], currentField := [],
     currentLine := currentLine p + 1, currentColumn := 1 \<rparr>"

text \<open>\<open>s[i]\<close> on a string: the code unit at \<open>i\<close>, or \<open>undefined\<close>.\<close>

definition charAt :: "string \<Rightarrow> nat \<Rightarrow> char option" where
  "charAt s i = (if i < length s then Some (s ! i) else None)"

text \<open>\<open>nextChar === s\<close> for a \<open>nextChar\<close> that is one code unit or \<open>undefined\<close>.\<close>

definition strictEq :: "char option \<Rightarrow> string \<Rightarrow> bool" where
  "strictEq nextChar s = (case nextChar of None \<Rightarrow> False | Some c \<Rightarrow> [c] = s)"

text \<open>\<open>this.currentRow[i] || ""\<close>: a missing field and an empty field both give \<open>""\<close>.\<close>

definition fieldOrEmpty :: "string list \<Rightarrow> nat \<Rightarrow> string" where
  "fieldOrEmpty r i = (if i < length r \<and> r ! i \<noteq> [] then r ! i else [])"

text \<open>
  A property name is an array index when it is the decimal writing, without sign and
  without leading zero, of an integer from 0 to 4294967294. JavaScript enumerates the
  array indices of an object first, in ascending numeric order, and the other names
  after them in the order of their creation.
\<close>

definition decimal :: "string \<Rightarrow> int" where
  "decimal k = foldl (\<lambda>n c. 10 * n + (of_char c - 48)) 0 k"

definition arrayIndex :: "string \<Rightarrow> int option" where
  "arrayIndex k =
     (case k of
        [] \<Rightarrow> None
      | c # cs \<Rightarrow>
          if list_all (\<lambda>d. d \<in> set ''0123456789'') k
          then (if cs = [] \<or> c \<noteq> CHR ''0''
                then (if decimal k < 4294967295 then Some (decimal k) else None)
                else None)
          else None)"

text \<open>A new array index goes before the first property that is not a smaller array index.\<close>

fun insertIndex :: "int \<Rightarrow> string \<Rightarrow> string \<Rightarrow> (string \<times> string) list \<Rightarrow> (string \<times> string) list" where
  "insertIndex n k v [] = [(k, v)]"
| "insertIndex n k v ((k', v') # obj) =
     (case arrayIndex k' of
        Some m \<Rightarrow> if m < n then (k', v') # insertIndex n k v obj else (k, v) # (k', v') # obj
      | None \<Rightarrow> (k, v) # (k', v') # obj)"

text \<open>
  The assignment \<open>row[k] = v\<close> of a string \<open>v\<close> on an object that started as \<open>{}\<close>. The
  name \<open>__proto__\<close> is an accessor inherited from \<open>Object.prototype\<close> whose setter ignores
  a string, so that assignment creates no property. Every other name becomes an own
  property: a present one keeps its place and takes the new value, a new one is placed
  by the enumeration order.
\<close>

definition setProperty :: "string \<Rightarrow> string \<Rightarrow> (string \<times> string) list \<Rightarrow> (string \<times> string) list" where
  "setProperty k v obj =
     (if k = ''__proto__'' then obj
      else case map_of obj k of
        Some old \<Rightarrow> AList.update k v obj
      | None \<Rightarrow> (case arrayIndex k of
                   Some n \<Rightarrow> insertIndex n k v obj
                 | None \<Rightarrow> obj @ [(k, v)]))"

text \<open>
  The loop \<open>for (i = 0; i < headers.length; i++) row[headers[i]] = currentRow[i] || ""\<close>
  started on the empty object.
\<close>

definition toObject :: "string list \<Rightarrow> string list \<Rightarrow> (string \<times> string) list" where
  "toObject hs r =
     foldl (\<lambda>obj i. setProperty (hs ! i) (fieldOrEmpty r i) obj) [] [0..<length hs]"

text \<open>
  The block "process data row", which \<open>endRow\<close> contains twice with the same text:
  build the row (\<open>if (this.headers)\<close> is true of every array, the empty one too), call
  \<open>onRow\<close>, increment \<open>rowIndex\<close>.
\<close>

definition emitRow :: "CSVParser \<Rightarrow> CSVParser" where
  "emitRow p =
     (let row = (case headers p of
                   Some hs \<Rightarrow> Obj (toObject hs (currentRow p))
                 | None \<Rightarrow> Fields (currentRow p))
      in p\<lparr> emitted := emitted p @ [OnRow row (rowIndex p)], rowIndex := rowIndex p + 1 \<rparr>)"

definition endRow :: "CSVParser \<Rightarrow> CSVParser" where
  "endRow p0 =
     (let p = p0\<lparr> currentRow := currentRow p0 @ [currentField p0] \<rparr> in
      if skipEmptyLines (options p) \<and> length (currentRow p) = 1 \<and> currentRow p ! 0 = []
      then resetRow p
      else if headersOpt (options p) = HBool True \<and> headers p = None
      then resetRow (p\<lparr> headers := Some (currentRow p),
                        emitted := emitted p @ [OnHeaders (currentRow p)] \<rparr>)
      else (case headersOpt (options p) of
              HList hs \<Rightarrow>
                if headers p = None
                then resetRow (emitRow (p\<lparr> headers := Some hs,
                                          emitted := emitted p @ [OnHeaders hs] \<rparr>))
                else resetRow (emitRow p)
            | HBool b \<Rightarrow> resetRow (emitRow p)))"

text \<open>\<open>this.currentField += char; this.currentColumn++\<close>, the fall-through of \<open>processCharacter\<close>.\<close>

definition appendChar :: "char \<Rightarrow> CSVParser \<Rightarrow> CSVParser" where
  "appendChar c p = p\<lparr> currentField := currentField p @ [c],
     currentColumn := currentColumn p + 1 \<rparr>"

definition processCharacter :: "char \<Rightarrow> CSVParser \<Rightarrow> CSVParser" where
  "processCharacter c p =
     (if inQuotes p then
        (if [c] = escape (options p) \<and>
            strictEq (charAt (buffer p) (bufferIndex p + 1)) (quote (options p))
         then p\<lparr> currentField := currentField p @ quote (options p),
                 currentColumn := currentColumn p + 2,
                 bufferIndex := bufferIndex p + 1 \<rparr>
         else if [c] = quote (options p)
         then p\<lparr> inQuotes := False, currentColumn := currentColumn p + 1 \<rparr>
         else appendChar c p)
      else
        (if [c] = quote (options p) then
           (if length (currentField p) > 0
            then appendChar c (addError ''Unexpected quote character'' p)
            else p\<lparr> inQuotes := True, currentColumn := currentColumn p + 1 \<rparr>)
         else if [c] = delimiter (options p)
         then p\<lparr> currentRow := currentRow p @ [currentField p], currentField := [],
                 currentColumn := currentColumn p + 1 \<rparr>
         else if c = LF \<or> c = CR
         then endRow (if c = CR \<and> strictEq (charAt (buffer p) (bufferIndex p + 1)) [LF]
                      then p\<lparr> bufferIndex := bufferIndex p + 1 \<rparr> else p)
         else appendChar c p))"

text \<open>One turn of the \<open>while\<close> loop of \<open>processChunk\<close>.\<close>

definition loopStep :: "CSVParser \<Rightarrow> CSVParser" where
  "loopStep p =
     (let p' = processCharacter (buffer p ! bufferIndex p) p
      in p'\<lparr> bufferIndex := bufferIndex p' + 1 \<rparr>)"

function processLoop :: "CSVParser \<Rightarrow> CSVParser" where
  "processLoop p =
     (if bufferIndex p < length (buffer p) then processLoop (loopStep p) else p)"
  by pat_completeness auto
termination
proof (relation "measure (\<lambda>p. length (buffer p) - bufferIndex p)")
  show "wf (measure (\<lambda>p. length (buffer p) - bufferIndex p))" by simp
next
  fix p :: CSVParser
  assume less: "bufferIndex p < length (buffer p)"
  have endRow_same: "buffer (endRow q) = buffer q \<and> bufferIndex (endRow q) = bufferIndex q"
    for q
    by (simp add: endRow_def emitRow_def resetRow_def Let_def split: headersOption.splits)
  have step: "buffer (processCharacter c p) = buffer p \<and>
      bufferIndex p \<le> bufferIndex (processCharacter c p)" for c
    by (simp add: processCharacter_def appendChar_def addError_def endRow_same)
  have "buffer (loopStep p) = buffer p \<and> bufferIndex p < bufferIndex (loopStep p)"
    using step [of "buffer p ! bufferIndex p"] by (simp add: loopStep_def Let_def)
  with less show "(loopStep p, p) \<in> measure (\<lambda>p. length (buffer p) - bufferIndex p)"
    by (simp add: diff_less_mono2)
qed

definition processChunk :: "string \<Rightarrow> CSVParser \<Rightarrow> CSVParser" where
  "processChunk chunk p =
     (processLoop (p\<lparr> buffer := buffer p @ chunk, bufferIndex := 0 \<rparr>))
        \<lparr> buffer := [], bufferIndex := 0 \<rparr>"

text \<open>
  \<open>if (this.currentField || this.currentRow.length > 0)\<close>: a string is true when it is
  not empty.
\<close>

definition finalize :: "CSVParser \<Rightarrow> CSVParser" where
  "finalize p0 =
     (let p1 = (if currentField p0 \<noteq> [] \<or> length (currentRow p0) > 0 then endRow p0 else p0);
          p2 = (if inQuotes p1 then addError ''Unclosed quoted field'' p1 else p1)
      in p2\<lparr> emitted := emitted p2 @ [OnEnd (rowIndex p2) (errors p2)] \<rparr>)"

record CSVParseResult =
  res_headers :: "string list option"
  res_rows :: "row list"
  res_errors :: "CSVError list"

text \<open>The rows that the \<open>onRow\<close> callback of \<open>parse\<close> has pushed.\<close>

fun rowsOf :: "event list \<Rightarrow> row list" where
  "rowsOf [] = []"
| "rowsOf (OnRow r i # es) = r # rowsOf es"
| "rowsOf (e # es) = rowsOf es"

text \<open>
  \<open>parse\<close> resets the parser, runs the input as one chunk with its own callbacks
  (\<open>onRow\<close> pushes the row; \<open>onHeaders\<close> stores in \<open>this.headers\<close> the array that
  \<open>endRow\<close> has just stored there) and returns the result; the parser keeps its state.
  \<open>parse\<close> passes no \<open>onEnd\<close>: the entry that \<open>finalize\<close> records for that callback is
  not a call there, and the result does not read it.
\<close>

definition parseState :: "string \<Rightarrow> CSVParser \<Rightarrow> CSVParser" where
  "parseState input p = finalize (processChunk input ((reset p)\<lparr> emitted := [] \<rparr>))"

definition parse :: "string \<Rightarrow> CSVParser \<Rightarrow> CSVParseResult \<times> CSVParser" where
  "parse input p =
     (let p' = parseState input p
      in (\<lparr> res_headers = headers p', res_rows = rowsOf (emitted p'),
            res_errors = errors p' \<rparr>, p'))"

text \<open>
  \<open>parseStream\<close> resets the parser and returns the two closures \<open>write\<close> and \<open>end\<close>. No
  method of the class throws, so the \<open>catch\<close> blocks of the closures are not entered by
  the parser itself.
\<close>

definition parseStream :: "CSVParser \<Rightarrow> CSVParser" where
  "parseStream p = (reset p)\<lparr> emitted := [] \<rparr>"

definition stream_write :: "string \<Rightarrow> CSVParser \<Rightarrow> CSVParser" where
  "stream_write chunk p = processChunk chunk p"

definition stream_end :: "CSVParser \<Rightarrow> CSVParser" where
  "stream_end p = finalize p"

text \<open>A whole session: the chunks written in order, then \<open>end\<close>.\<close>

definition streamSession :: "string list \<Rightarrow> CSVParser \<Rightarrow> CSVParser" where
  "streamSession chunks p = stream_end (foldl (\<lambda>s chunk. stream_write chunk s) (parseStream p) chunks)"

section \<open>Two sessions on the same input\<close>

text \<open>
  The header option is read by \<open>endRow\<close> only, so two sessions that are fed the same
  chunks and differ in that option alone go through the same characters, fields, rows,
  positions and diagnostics. \<open>lexEq\<close> holds of two parsers that agree on these.
\<close>

definition lexEq :: "CSVParser \<Rightarrow> CSVParser \<Rightarrow> bool" where
  "lexEq p p' \<longleftrightarrow>
     buffer p' = buffer p \<and> bufferIndex p' = bufferIndex p \<and>
     currentLine p' = currentLine p \<and> currentColumn p' = currentColumn p \<and>
     inQuotes p' = inQuotes p \<and> currentField p' = currentField p \<and>
     currentRow p' = currentRow p \<and> errors p' = errors p \<and>
     delimiter (options p') = delimiter (options p) \<and>
     quote (options p') = quote (options p) \<and>
     escape (options p') = escape (options p) \<and>
     skipEmptyLines (options p') = skipEmptyLines (options p)"

text \<open>
  What \<open>endRow\<close> has done with the rows \<open>rs\<close> that were not skipped, in order, under
  each header option: the header it has stored, the rows it has emitted as data, the
  form of an emitted row, and the callback calls it has made.
\<close>

definition headerFor :: "headersOption \<Rightarrow> string list list \<Rightarrow> string list option" where
  "headerFor h rs =
     (case h of
        HList hs \<Rightarrow> (if rs = [] then None else Some hs)
      | HBool b \<Rightarrow> (if b then (case rs of [] \<Rightarrow> None | r # _ \<Rightarrow> Some r) else None))"

definition dataFor :: "headersOption \<Rightarrow> string list list \<Rightarrow> string list list" where
  "dataFor h rs = (if h = HBool True then tl rs else rs)"

definition rowFor :: "string list option \<Rightarrow> string list \<Rightarrow> row" where
  "rowFor h r = (case h of Some hs \<Rightarrow> Obj (toObject hs r) | None \<Rightarrow> Fields r)"

definition eventsFor :: "headersOption \<Rightarrow> string list list \<Rightarrow> event list" where
  "eventsFor h rs =
     (case headerFor h rs of None \<Rightarrow> [] | Some hs \<Rightarrow> [OnHeaders hs]) @
     map (\<lambda>(i, r). OnRow (rowFor (headerFor h rs) r) i) (enumerate 0 (dataFor h rs))"

text \<open>
  \<open>tracks p rs\<close>: the header, the callback calls and \<open>rowIndex\<close> of \<open>p\<close> are those of the
  rows \<open>rs\<close>. \<open>sim p p' rs\<close>: two parsers in step on the same rows. \<open>finished p rs\<close>: the
  same after \<open>finalize\<close>, whose \<open>onEnd\<close> call comes last.
\<close>

definition tracks :: "CSVParser \<Rightarrow> string list list \<Rightarrow> bool" where
  "tracks p rs \<longleftrightarrow>
     headers p = headerFor (headersOpt (options p)) rs \<and>
     emitted p = eventsFor (headersOpt (options p)) rs \<and>
     rowIndex p = length (dataFor (headersOpt (options p)) rs)"

definition sim :: "CSVParser \<Rightarrow> CSVParser \<Rightarrow> string list list \<Rightarrow> bool" where
  "sim p p' rs \<longleftrightarrow> lexEq p p' \<and> tracks p rs \<and> tracks p' rs"

definition finished :: "CSVParser \<Rightarrow> string list list \<Rightarrow> bool" where
  "finished p rs \<longleftrightarrow>
     headers p = headerFor (headersOpt (options p)) rs \<and>
     emitted p = eventsFor (headersOpt (options p)) rs @
       [OnEnd (length (dataFor (headersOpt (options p)) rs)) (errors p)]"

text \<open>
  A chunk that is empty, or whose first character is neither the quote string nor a
  line feed: the two look-aheads of \<open>processCharacter\<close> answer no on such a character,
  as they do on \<open>undefined\<close> at the end of the buffer.
\<close>

definition safeStart :: "options \<Rightarrow> string \<Rightarrow> bool" where
  "safeStart opts chunk =
     (case chunk of [] \<Rightarrow> True | c # _ \<Rightarrow> [c] \<noteq> quote opts \<and> c \<noteq> LF)"

section \<open>Facts shared by the proofs\<close>

declare processLoop.simps [simp del]

lemma options_resetRow [simp]: "options (resetRow p) = options p"
  by (simp add: resetRow_def)

lemma options_emitRow [simp]: "options (emitRow p) = options p"
  by (simp add: emitRow_def Let_def)

lemma options_endRow [simp]: "options (endRow p) = options p"
  by (simp add: endRow_def Let_def split: headersOption.splits)

lemma options_processCharacter [simp]: "options (processCharacter c p) = options p"
  by (simp add: processCharacter_def appendChar_def addError_def)

lemma options_loopStep [simp]: "options (loopStep p) = options p"
  by (simp add: loopStep_def Let_def)

lemma options_processLoop [simp]: "options (processLoop p) = options p"
proof (induction p rule: processLoop.induct)
  case (1 p)
  show ?case
  proof (cases "bufferIndex p < length (buffer p)")
    case True
    with 1 show ?thesis by (subst processLoop.simps) simp
  next
    case False
    then show ?thesis by (subst processLoop.simps) simp
  qed
qed

lemma options_processChunk [simp]: "options (processChunk chunk p) = options p"
  by (simp add: processChunk_def)

lemma options_finalize [simp]: "options (finalize p) = options p"
  by (simp add: finalize_def Let_def addError_def)

lemma options_parseState [simp]: "options (parseState input p) = options p"
  by (simp add: parseState_def reset_def)

lemma reset_fresh: "(reset p)\<lparr> emitted := [] \<rparr> = newCSVParser (options p)"
  by (simp add: reset_def newCSVParser_def)

lemma parseState_fresh: "parseState input p = parseState input (newCSVParser (options p))"
proof -
  have "(reset (newCSVParser (options p)))\<lparr> emitted := [] \<rparr> = newCSVParser (options p)"
    by (simp add: reset_def newCSVParser_def)
  then show ?thesis by (simp add: parseState_def reset_fresh)
qed

lemma parse_fresh: "fst (parse input p) = fst (parse input (newCSVParser (options p)))"
  using parseState_fresh [of input p] by (simp add: parse_def Let_def)

lemma rowsOf_append: "rowsOf (xs @ ys) = rowsOf xs @ rowsOf ys"
  by (induction xs rule: rowsOf.induct) simp_all

lemma inQuotes_endRow [simp]: "inQuotes (endRow p) = inQuotes p"
  by (simp add: endRow_def emitRow_def resetRow_def Let_def split: headersOption.splits)

lemma errors_endRow [simp]: "errors (endRow p) = errors p"
  by (simp add: endRow_def emitRow_def resetRow_def Let_def split: headersOption.splits)

lemma map_of_insertIndex:
  "map_of obj k = None \<Longrightarrow> map_of (insertIndex n k v obj) = (map_of obj)(k \<mapsto> v)"
proof (induction obj)
  case Nil
  then show ?case by simp
next
  case (Cons e obj)
  obtain k' v' where e: "e = (k', v')" by (cases e)
  with Cons.prems have ne: "k' \<noteq> k" and none: "map_of obj k = None"
    by (simp_all split: if_splits)
  from Cons.IH [OF none] ne show ?case
    by (auto simp add: e fun_upd_twist split: option.splits)
qed

lemma map_add_single_fresh:
  "m k = None \<Longrightarrow> [k \<mapsto> v] ++ m = m(k \<mapsto> v)"
proof (rule ext)
  fix x
  assume "m k = None"
  then show "([k \<mapsto> v] ++ m) x = (m(k \<mapsto> v)) x"
    by (cases "x = k") (simp_all add: map_add_def split: option.splits)
qed

lemma map_of_setProperty:
  "map_of (setProperty k v obj) =
     (if k = ''__proto__'' then map_of obj else (map_of obj)(k \<mapsto> v))"
proof (cases "k = ''__proto__''")
  case True
  then show ?thesis by (simp add: setProperty_def)
next
  case False
  show ?thesis
  proof (cases "map_of obj k")
    case (Some old)
    with False show ?thesis by (simp add: setProperty_def update_conv')
  next
    case None
    show ?thesis
    proof (cases "arrayIndex k")
      case (Some n)
      with False None show ?thesis by (simp add: setProperty_def map_of_insertIndex)
    next
      case none: None
      with False None show ?thesis by (simp add: setProperty_def map_add_single_fresh)
    qed
  qed
qed

lemma keys_setProperty:
  "fst ` set (setProperty k v obj) =
     (if k = ''__proto__'' then fst ` set obj else insert k (fst ` set obj))"
proof -
  have "dom (map_of (setProperty k v obj)) =
     (if k = ''__proto__'' then dom (map_of obj) else insert k (dom (map_of obj)))"
    by (simp add: map_of_setProperty)
  then show ?thesis by (simp add: dom_map_of_conv_image_fst)
qed

lemma setProperty_plain:
  "k \<noteq> ''__proto__'' \<Longrightarrow> arrayIndex k = None \<Longrightarrow> k \<notin> fst ` set obj \<Longrightarrow>
     setProperty k v obj = obj @ [(k, v)]"
proof -
  assume a: "k \<noteq> ''__proto__''" "arrayIndex k = None" "k \<notin> fst ` set obj"
  then have "map_of obj k = None" by (simp add: map_of_eq_None_iff)
  with a show ?thesis by (simp add: setProperty_def)
qed

lemma toObject_lookup_aux:
  "i < n \<Longrightarrow> hs ! i \<noteq> ''__proto__'' \<Longrightarrow> (\<forall>j. i < j \<and> j < n \<longrightarrow> hs ! j \<noteq> hs ! i) \<Longrightarrow>
     map_of (foldl (\<lambda>obj i. setProperty (hs ! i) (g i) obj) [] [0..<n]) (hs ! i) = Some (g i)"
proof (induction n)
  case 0
  then show ?case by simp
next
  case (Suc n)
  show ?case
  proof (cases "i = n")
    case True
    with Suc.prems(2) show ?thesis by (simp add: map_of_setProperty)
  next
    case False
    with Suc.prems have "i < n" and "hs ! n \<noteq> hs ! i" by auto
    moreover from Suc.prems have "\<forall>j. i < j \<and> j < n \<longrightarrow> hs ! j \<noteq> hs ! i" by auto
    ultimately show ?thesis using Suc.IH Suc.prems(2) by (simp add: map_of_setProperty)
  qed
qed

lemma toObject_keys_aux:
  "n \<le> length hs \<Longrightarrow>
     fst ` set (foldl (\<lambda>obj i. setProperty (hs ! i) (g i) obj) [] [0..<n])
       = set (take n hs) - {''__proto__''}"
proof (induction n)
  case 0
  then show ?case by simp
next
  case (Suc n)
  then have n: "n < length hs" and ih: "fst ` set (foldl (\<lambda>obj i. setProperty (hs ! i) (g i) obj) [] [0..<n])
       = set (take n hs) - {''__proto__''}"
    by simp_all
  have "set (take (Suc n) hs) = insert (hs ! n) (set (take n hs))"
    using n by (simp add: take_Suc_conv_app_nth)
  then show ?case
    by (auto simp add: keys_setProperty ih)
qed

lemma toObject_plain_aux:
  "n \<le> length hs \<Longrightarrow> distinct hs \<Longrightarrow> ''__proto__'' \<notin> set hs \<Longrightarrow>
   list_all (\<lambda>k. arrayIndex k = None) hs \<Longrightarrow>
     foldl (\<lambda>obj i. setProperty (hs ! i) (g i) obj) [] [0..<n]
       = zip (take n hs) (map g [0..<n])"
proof (induction n)
  case 0
  then show ?case by simp
next
  case (Suc n)
  then have n: "n < length hs" by simp
  have notin: "hs ! n \<notin> set (take n hs)"
    using Suc.prems(2) n by (metis distinct_take id_take_nth_drop not_distinct_conv_prefix)
  have ih: "foldl (\<lambda>obj i. setProperty (hs ! i) (g i) obj) [] [0..<n]
       = zip (take n hs) (map g [0..<n])"
    using Suc by simp
  have "fst ` set (zip (take n hs) (map g [0..<n])) = set (take n hs) - {''__proto__''}"
    using toObject_keys_aux [of n hs g] n ih by simp
  with notin have fresh: "hs ! n \<notin> fst ` set (zip (take n hs) (map g [0..<n]))" by simp
  from n Suc.prems(3) have np: "hs ! n \<noteq> ''__proto__''" by (metis nth_mem)
  from n Suc.prems(4) have ni: "arrayIndex (hs ! n) = None" by (simp add: list_all_length)
  show ?case
    using n by (simp add: ih setProperty_plain [OF np ni fresh] take_Suc_conv_app_nth)
qed

lemma emitted_finalize:
  "emitted (finalize p) = butlast (emitted (finalize p)) @
     [OnEnd (rowIndex (finalize p)) (errors (finalize p))]"
  by (simp add: finalize_def Let_def addError_def)

lemma endRow_lexical [simp]:
  "currentRow (endRow p) = []" "currentField (endRow p) = []"
  "currentLine (endRow p) = currentLine p + 1" "currentColumn (endRow p) = 1"
  "buffer (endRow p) = buffer p" "bufferIndex (endRow p) = bufferIndex p"
  by (simp_all add: endRow_def emitRow_def resetRow_def Let_def split: headersOption.splits)

lemma enumerate_snoc: "enumerate n (xs @ [x]) = enumerate n xs @ [(n + length xs, x)]"
  by (simp add: enumerate_append_eq)

lemma endRow_skipped:
  "skipEmptyLines (options p) \<Longrightarrow> currentRow p = [] \<Longrightarrow> currentField p = [] \<Longrightarrow>
     headers (endRow p) = headers p \<and> emitted (endRow p) = emitted p \<and>
     rowIndex (endRow p) = rowIndex p"
  by (simp add: endRow_def resetRow_def Let_def)

lemma endRow_tracks_skipped:
  "tracks p rs \<Longrightarrow> skipEmptyLines (options p) \<Longrightarrow> currentRow p = [] \<Longrightarrow>
     currentField p = [] \<Longrightarrow> tracks (endRow p) rs"
  using endRow_skipped [of p] by (simp add: tracks_def)

lemma endRow_tracks_kept:
  assumes "tracks p rs"
    and "\<not> (skipEmptyLines (options p) \<and> currentRow p = [] \<and> currentField p = [])"
  shows "tracks (endRow p) (rs @ [currentRow p @ [currentField p]])"
proof -
  from assms(2) have keep: "\<not> (skipEmptyLines (options p) \<and>
      length (currentRow p @ [currentField p]) = 1 \<and> (currentRow p @ [currentField p]) ! 0 = [])"
    by (cases "currentRow p") auto
  show ?thesis
  proof (cases "headersOpt (options p)")
    case (HBool b)
    show ?thesis
    proof (cases b)
      case True
      show ?thesis
      proof (cases rs)
        case Nil
        with assms(1) HBool True keep show ?thesis
          by (simp add: tracks_def endRow_def resetRow_def Let_def headerFor_def dataFor_def
              eventsFor_def)
      next
        case (Cons h rest)
        with assms(1) HBool True keep show ?thesis
          by (simp add: tracks_def endRow_def emitRow_def resetRow_def Let_def headerFor_def
              dataFor_def eventsFor_def rowFor_def enumerate_snoc)
      qed
    next
      case False
      with assms(1) HBool keep show ?thesis
        by (simp add: tracks_def endRow_def emitRow_def resetRow_def Let_def headerFor_def
            dataFor_def eventsFor_def rowFor_def enumerate_snoc)
    qed
  next
    case (HList hs)
    show ?thesis
    proof (cases rs)
      case Nil
      with assms(1) HList keep show ?thesis
        by (simp add: tracks_def endRow_def emitRow_def resetRow_def Let_def headerFor_def
            dataFor_def eventsFor_def rowFor_def)
    next
      case (Cons h rest)
      with assms(1) HList keep show ?thesis
        by (simp add: tracks_def endRow_def emitRow_def resetRow_def Let_def headerFor_def
            dataFor_def eventsFor_def rowFor_def enumerate_snoc)
    qed
  qed
qed


lemma sim_endRow:
  assumes "sim p p' rs"
  shows "\<exists>rs'. sim (endRow p) (endRow p') rs'"
proof (cases "skipEmptyLines (options p) \<and> currentRow p = [] \<and> currentField p = []")
  case True
  with assms have "tracks (endRow p) rs" and "tracks (endRow p') rs"
    by (simp_all add: sim_def lexEq_def endRow_tracks_skipped)
  moreover from assms have "lexEq (endRow p) (endRow p')"
    by (simp add: sim_def lexEq_def)
  ultimately show ?thesis unfolding sim_def by blast
next
  case False
  with assms have "tracks (endRow p) (rs @ [currentRow p @ [currentField p]])"
    by (simp add: sim_def endRow_tracks_kept)
  moreover from False assms
  have "\<not> (skipEmptyLines (options p') \<and> currentRow p' = [] \<and> currentField p' = [])"
    by (simp add: sim_def lexEq_def)
  with assms have "tracks (endRow p') (rs @ [currentRow p' @ [currentField p']])"
    by (simp add: sim_def endRow_tracks_kept)
  with assms have "tracks (endRow p') (rs @ [currentRow p @ [currentField p]])"
    by (simp add: sim_def lexEq_def)
  moreover from assms have "lexEq (endRow p) (endRow p')"
    by (simp add: sim_def lexEq_def)
  ultimately show ?thesis unfolding sim_def by blast
qed

lemma sim_bufferIndex:
  "sim p p' rs \<Longrightarrow> sim (p\<lparr> bufferIndex := n \<rparr>) (p'\<lparr> bufferIndex := n \<rparr>) rs"
  by (simp add: sim_def lexEq_def tracks_def)

lemma sim_appendChar: "sim p p' rs \<Longrightarrow> sim (appendChar c p) (appendChar c p') rs"
  by (simp add: sim_def lexEq_def tracks_def appendChar_def)

lemma sim_addError: "sim p p' rs \<Longrightarrow> sim (addError msg p) (addError msg p') rs"
  by (simp add: sim_def lexEq_def tracks_def addError_def)

lemma sim_escaped:
  "sim p p' rs \<Longrightarrow>
     sim (p\<lparr> currentField := currentField p @ quote (options p),
             currentColumn := currentColumn p + 2, bufferIndex := bufferIndex p + 1 \<rparr>)
         (p'\<lparr> currentField := currentField p' @ quote (options p'),
              currentColumn := currentColumn p' + 2, bufferIndex := bufferIndex p' + 1 \<rparr>) rs"
  by (simp add: sim_def lexEq_def tracks_def)

lemma sim_quote_toggle:
  "sim p p' rs \<Longrightarrow>
     sim (p\<lparr> inQuotes := b, currentColumn := currentColumn p + 1 \<rparr>)
         (p'\<lparr> inQuotes := b, currentColumn := currentColumn p' + 1 \<rparr>) rs"
  by (simp add: sim_def lexEq_def tracks_def)

lemma sim_delimiter:
  "sim p p' rs \<Longrightarrow>
     sim (p\<lparr> currentRow := currentRow p @ [currentField p], currentField := [],
             currentColumn := currentColumn p + 1 \<rparr>)
         (p'\<lparr> currentRow := currentRow p' @ [currentField p'], currentField := [],
              currentColumn := currentColumn p' + 1 \<rparr>) rs"
  by (simp add: sim_def lexEq_def tracks_def)

lemma sim_processCharacter:
  assumes "sim p p' rs"
  shows "\<exists>rs'. sim (processCharacter c p) (processCharacter c p') rs'"
proof -
  from assms have eq: "buffer p' = buffer p" "bufferIndex p' = bufferIndex p"
    "inQuotes p' = inQuotes p" "currentField p' = currentField p"
    "delimiter (options p') = delimiter (options p)" "quote (options p') = quote (options p)"
    "escape (options p') = escape (options p)"
    by (simp_all add: sim_def lexEq_def)
  let ?next = "charAt (buffer p) (bufferIndex p + 1)"
  show ?thesis
  proof (cases "inQuotes p")
    case True
    show ?thesis
    proof (cases "[c] = escape (options p) \<and> strictEq ?next (quote (options p))")
      case esc: True
      from True esc have "processCharacter c p =
          p\<lparr> currentField := currentField p @ quote (options p),
             currentColumn := currentColumn p + 2, bufferIndex := bufferIndex p + 1 \<rparr>"
        by (auto simp add: processCharacter_def)
      moreover from True esc eq have "processCharacter c p' =
          p'\<lparr> currentField := currentField p' @ quote (options p'),
              currentColumn := currentColumn p' + 2, bufferIndex := bufferIndex p' + 1 \<rparr>"
        by (auto simp add: processCharacter_def)
      ultimately show ?thesis using sim_escaped [OF assms] by auto
    next
      case esc: False
      show ?thesis
      proof (cases "[c] = quote (options p)")
        case q: True
        from True esc q have "processCharacter c p =
            p\<lparr> inQuotes := False, currentColumn := currentColumn p + 1 \<rparr>"
          by (auto simp add: processCharacter_def)
        moreover from True esc q eq have "processCharacter c p' =
            p'\<lparr> inQuotes := False, currentColumn := currentColumn p' + 1 \<rparr>"
          by (auto simp add: processCharacter_def)
        ultimately show ?thesis using sim_quote_toggle [OF assms, of False] by auto
      next
        case q: False
        from True esc q have "processCharacter c p = appendChar c p"
          by (auto simp add: processCharacter_def)
        moreover from True esc q eq have "processCharacter c p' = appendChar c p'"
          by (auto simp add: processCharacter_def)
        ultimately show ?thesis using sim_appendChar [OF assms, of c] by auto
      qed
    qed
  next
    case False
    show ?thesis
    proof (cases "[c] = quote (options p)")
      case q: True
      show ?thesis
      proof (cases "currentField p = []")
        case e: True
        from False q e have "processCharacter c p =
            p\<lparr> inQuotes := True, currentColumn := currentColumn p + 1 \<rparr>"
          by (auto simp add: processCharacter_def)
        moreover from False q e eq have "processCharacter c p' =
            p'\<lparr> inQuotes := True, currentColumn := currentColumn p' + 1 \<rparr>"
          by (auto simp add: processCharacter_def)
        ultimately show ?thesis using sim_quote_toggle [OF assms, of True] by auto
      next
        case e: False
        from False q e have "processCharacter c p =
            appendChar c (addError ''Unexpected quote character'' p)"
          by (auto simp add: processCharacter_def)
        moreover from False q e eq have "processCharacter c p' =
            appendChar c (addError ''Unexpected quote character'' p')"
          by (auto simp add: processCharacter_def)
        ultimately show ?thesis
          using sim_appendChar [OF sim_addError [OF assms], of c "''Unexpected quote character''"]
          by auto
      qed
    next
      case q: False
      show ?thesis
      proof (cases "[c] = delimiter (options p)")
        case d: True
        from False q d have "processCharacter c p =
            p\<lparr> currentRow := currentRow p @ [currentField p], currentField := [],
               currentColumn := currentColumn p + 1 \<rparr>"
          by (auto simp add: processCharacter_def)
        moreover from False q d eq have "processCharacter c p' =
            p'\<lparr> currentRow := currentRow p' @ [currentField p'], currentField := [],
                currentColumn := currentColumn p' + 1 \<rparr>"
          by (auto simp add: processCharacter_def)
        ultimately show ?thesis using sim_delimiter [OF assms] by auto
      next
        case d: False
        show ?thesis
        proof (cases "c = LF \<or> c = CR")
          case nl: True
          let ?skip = "c = CR \<and> strictEq ?next [LF]"
          let ?q = "if ?skip then p\<lparr> bufferIndex := bufferIndex p + 1 \<rparr> else p"
          let ?q' = "if ?skip then p'\<lparr> bufferIndex := bufferIndex p + 1 \<rparr> else p'"
          from False q d nl have a: "processCharacter c p = endRow ?q"
            by (auto simp add: processCharacter_def)
          from False q d nl eq have b: "processCharacter c p' = endRow ?q'"
            by (auto simp add: processCharacter_def)
          from assms have "sim ?q ?q' rs"
            by (simp add: sim_bufferIndex)
          from sim_endRow [OF this] show ?thesis
            unfolding a b .
        next
          case nl: False
          from False q d nl have "processCharacter c p = appendChar c p"
            by (auto simp add: processCharacter_def)
          moreover from False q d nl eq have "processCharacter c p' = appendChar c p'"
            by (auto simp add: processCharacter_def)
          ultimately show ?thesis using sim_appendChar [OF assms, of c] by auto
        qed
      qed
    qed
  qed
qed

lemma sim_loopStep:
  assumes "sim p p' rs"
  shows "\<exists>rs'. sim (loopStep p) (loopStep p') rs'"
proof -
  from assms have eq: "buffer p' = buffer p" "bufferIndex p' = bufferIndex p"
    by (simp_all add: sim_def lexEq_def)
  from sim_processCharacter [OF assms, of "buffer p ! bufferIndex p"]
  obtain rs' where s: "sim (processCharacter (buffer p ! bufferIndex p) p)
      (processCharacter (buffer p ! bufferIndex p) p') rs'" by blast
  then have "bufferIndex (processCharacter (buffer p ! bufferIndex p) p')
      = bufferIndex (processCharacter (buffer p ! bufferIndex p) p)"
    by (simp add: sim_def lexEq_def)
  with s have "sim (loopStep p) (loopStep p') rs'"
    by (simp add: loopStep_def Let_def eq sim_bufferIndex)
  then show ?thesis by blast
qed

lemma sim_processLoop:
  "sim p p' rs \<Longrightarrow> \<exists>rs'. sim (processLoop p) (processLoop p') rs'"
proof (induction p arbitrary: p' rs rule: processLoop.induct)
  case (1 p)
  from "1.prems" have eq: "buffer p' = buffer p" "bufferIndex p' = bufferIndex p"
    by (simp_all add: sim_def lexEq_def)
  show ?case
  proof (cases "bufferIndex p < length (buffer p)")
    case True
    from sim_loopStep [OF "1.prems"] obtain rs1 where "sim (loopStep p) (loopStep p') rs1"
      by blast
    from "1.IH" [OF True this] obtain rs' where
      "sim (processLoop (loopStep p)) (processLoop (loopStep p')) rs'" by blast
    moreover from True have "processLoop p = processLoop (loopStep p)"
      by (subst processLoop.simps) simp
    moreover from True eq have "processLoop p' = processLoop (loopStep p')"
      by (subst processLoop.simps) simp
    ultimately show ?thesis by auto
  next
    case False
    then have "processLoop p = p" by (subst processLoop.simps) simp
    moreover from False eq have "processLoop p' = p'" by (subst processLoop.simps) simp
    ultimately show ?thesis using "1.prems" by auto
  qed
qed

lemma sim_processChunk:
  assumes "sim p p' rs"
  shows "\<exists>rs'. sim (processChunk chunk p) (processChunk chunk p') rs'"
proof -
  from assms have eq: "buffer p' = buffer p" by (simp add: sim_def lexEq_def)
  from assms have "sim (p\<lparr> buffer := buffer p @ chunk, bufferIndex := 0 \<rparr>)
      (p'\<lparr> buffer := buffer p @ chunk, bufferIndex := 0 \<rparr>) rs"
    by (simp add: sim_def lexEq_def tracks_def)
  from sim_processLoop [OF this] obtain rs' where
    "sim (processLoop (p\<lparr> buffer := buffer p @ chunk, bufferIndex := 0 \<rparr>))
      (processLoop (p'\<lparr> buffer := buffer p @ chunk, bufferIndex := 0 \<rparr>)) rs'" by blast
  then have "sim (processChunk chunk p) (processChunk chunk p') rs'"
    by (simp add: processChunk_def eq sim_def lexEq_def tracks_def)
  then show ?thesis by blast
qed


lemma rowsOf_OnRow_map: "rowsOf (map (\<lambda>(i, r). OnRow (f r) i) xs) = map (\<lambda>(i, r). f r) xs"
  by (induction xs) auto

lemma map_snd_enumerate: "map (\<lambda>(i, r). f r) (enumerate n xs) = map f xs"
  by (induction xs arbitrary: n) simp_all

lemma rowsOf_eventsFor:
  "rowsOf (eventsFor h rs) = map (rowFor (headerFor h rs)) (dataFor h rs)"
  by (simp add: eventsFor_def rowsOf_append rowsOf_OnRow_map map_snd_enumerate
      split: option.splits)

lemma sim_finalize:
  assumes "sim p p' rs"
  shows "\<exists>rs'. errors (finalize p') = errors (finalize p) \<and>
           finished (finalize p) rs' \<and> finished (finalize p') rs'"
proof -
  from assms have eq: "currentField p' = currentField p" "currentRow p' = currentRow p"
    "inQuotes p' = inQuotes p"
    by (simp_all add: sim_def lexEq_def)
  let ?pending = "currentField p \<noteq> [] \<or> length (currentRow p) > 0"
  let ?p1 = "if ?pending then endRow p else p"
  let ?p1' = "if ?pending then endRow p' else p'"
  have "\<exists>rs1. sim ?p1 ?p1' rs1"
    using sim_endRow [OF assms] assms by auto
  then obtain rs1 where s1: "sim ?p1 ?p1' rs1" by blast
  let ?p2 = "if inQuotes ?p1 then addError ''Unclosed quoted field'' ?p1 else ?p1"
  let ?p2' = "if inQuotes ?p1' then addError ''Unclosed quoted field'' ?p1' else ?p1'"
  from s1 have iq: "inQuotes ?p1' = inQuotes ?p1" by (simp add: sim_def lexEq_def)
  have s2: "sim ?p2 ?p2' rs1"
    using s1 sim_addError [OF s1, of "''Unclosed quoted field''"] unfolding iq by simp
  have f: "finalize p = ?p2\<lparr> emitted := emitted ?p2 @ [OnEnd (rowIndex ?p2) (errors ?p2)] \<rparr>"
    by (simp add: finalize_def Let_def)
  have f': "finalize p' = ?p2'\<lparr> emitted := emitted ?p2' @ [OnEnd (rowIndex ?p2') (errors ?p2')] \<rparr>"
    by (simp add: finalize_def Let_def eq)
  from s2 have "errors ?p2' = errors ?p2" by (simp add: sim_def lexEq_def)
  then have e: "errors (finalize p') = errors (finalize p)"
    unfolding f f' by simp
  from s2 have t: "tracks ?p2 rs1" and t': "tracks ?p2' rs1" by (simp_all add: sim_def)
  have "finished (finalize p) rs1"
    unfolding f using t by (simp add: finished_def tracks_def)
  moreover have "finished (finalize p') rs1"
    unfolding f' using t' by (simp add: finished_def tracks_def)
  ultimately show ?thesis using e by blast
qed

lemma sim_writes:
  "sim p p' rs \<Longrightarrow>
     \<exists>rs'. sim (foldl (\<lambda>s chunk. stream_write chunk s) p chunks)
                (foldl (\<lambda>s chunk. stream_write chunk s) p' chunks) rs'"
proof (induction chunks arbitrary: p p' rs)
  case Nil
  then show ?case by auto
next
  case (Cons chunk chunks)
  from sim_processChunk [OF Cons.prems, of chunk] obtain rs1 where
    "sim (processChunk chunk p) (processChunk chunk p') rs1" by blast
  from Cons.IH [OF this] show ?case by (simp add: stream_write_def)
qed

lemma sim_fresh:
  assumes "delimiter o' = delimiter o1" and "quote o' = quote o1" and "escape o' = escape o1"
    and "skipEmptyLines o' = skipEmptyLines o1"
  shows "sim (parseStream (newCSVParser o1)) (parseStream (newCSVParser o')) []"
  using assms
  by (simp add: sim_def lexEq_def tracks_def parseStream_def reset_def newCSVParser_def
      headerFor_def dataFor_def eventsFor_def split: headersOption.splits)

lemma sim_streamSession:
  assumes "delimiter o' = delimiter o1" and "quote o' = quote o1" and "escape o' = escape o1"
    and "skipEmptyLines o' = skipEmptyLines o1"
  shows "\<exists>rs. errors (streamSession chunks (newCSVParser o'))
             = errors (streamSession chunks (newCSVParser o1)) \<and>
           finished (streamSession chunks (newCSVParser o1)) rs \<and>
           finished (streamSession chunks (newCSVParser o')) rs"
proof -
  from sim_writes [OF sim_fresh [OF assms], of chunks] obtain rs1 where
    "sim (foldl (\<lambda>s chunk. stream_write chunk s) (parseStream (newCSVParser o1)) chunks)
         (foldl (\<lambda>s chunk. stream_write chunk s) (parseStream (newCSVParser o')) chunks) rs1"
    by blast
  from sim_finalize [OF this] show ?thesis
    by (simp add: streamSession_def stream_end_def)
qed

lemma parseState_streamSession: "parseState input p = streamSession [input] p"
  by (simp add: parseState_def streamSession_def stream_end_def stream_write_def parseStream_def)

lemma options_writes [simp]:
  "options (foldl (\<lambda>s chunk. stream_write chunk s) p chunks) = options p"
  by (induction chunks arbitrary: p) (simp_all add: stream_write_def)

lemma options_streamSession [simp]: "options (streamSession chunks p) = options p"
  by (simp add: streamSession_def stream_end_def parseStream_def reset_def)

lemma session_by_mode:
  "\<exists>rs. errors (streamSession chunks (newCSVParser (opts\<lparr> headersOpt := h \<rparr>)))
           = errors (streamSession chunks (newCSVParser (opts\<lparr> headersOpt := HBool False \<rparr>))) \<and>
        finished (streamSession chunks (newCSVParser (opts\<lparr> headersOpt := HBool False \<rparr>))) rs \<and>
        finished (streamSession chunks (newCSVParser (opts\<lparr> headersOpt := h \<rparr>))) rs"
  by (rule sim_streamSession) simp_all

lemma finished_raw:
  assumes "finished q rs" and "headersOpt (options q) = HBool False"
  shows "rowsOf (emitted q) = map Fields rs"
  using assms
  by (simp add: finished_def rowsOf_append rowsOf_eventsFor headerFor_def dataFor_def
      rowFor_def)

lemma finished_firstRow:
  assumes "finished q rs" and "headersOpt (options q) = HBool True"
  shows "headers q = (case rs of [] \<Rightarrow> None | h # rest \<Rightarrow> Some h)"
    and "emitted q =
      (case rs of [] \<Rightarrow> []
       | h # rest \<Rightarrow> OnHeaders h # map (\<lambda>(i, r). OnRow (Obj (toObject h r)) i) (enumerate 0 rest))
      @ [OnEnd (length (tl rs)) (errors q)]"
    and "rowsOf (emitted q) =
      (case rs of [] \<Rightarrow> [] | h # rest \<Rightarrow> map (\<lambda>r. Obj (toObject h r)) rest)"
proof -
  show "headers q = (case rs of [] \<Rightarrow> None | h # rest \<Rightarrow> Some h)"
    using assms by (simp add: finished_def headerFor_def)
  show "emitted q =
      (case rs of [] \<Rightarrow> []
       | h # rest \<Rightarrow> OnHeaders h # map (\<lambda>(i, r). OnRow (Obj (toObject h r)) i) (enumerate 0 rest))
      @ [OnEnd (length (tl rs)) (errors q)]"
    using assms
    by (cases rs) (simp_all add: finished_def eventsFor_def headerFor_def dataFor_def rowFor_def)
  show "rowsOf (emitted q) =
      (case rs of [] \<Rightarrow> [] | h # rest \<Rightarrow> map (\<lambda>r. Obj (toObject h r)) rest)"
    using assms
    by (cases rs)
       (simp_all add: finished_def rowsOf_append rowsOf_eventsFor headerFor_def dataFor_def
          rowFor_def)
qed

lemma finished_explicit:
  assumes "finished q rs" and "headersOpt (options q) = HList names"
  shows "headers q = (if rs = [] then None else Some names)"
    and "emitted q =
      (if rs = [] then [] else [OnHeaders names])
      @ map (\<lambda>(i, r). OnRow (Obj (toObject names r)) i) (enumerate 0 rs)
      @ [OnEnd (length rs) (errors q)]"
    and "rowsOf (emitted q) = map (\<lambda>r. Obj (toObject names r)) rs"
proof -
  show "headers q = (if rs = [] then None else Some names)"
    using assms by (simp add: finished_def headerFor_def)
  show "emitted q =
      (if rs = [] then [] else [OnHeaders names])
      @ map (\<lambda>(i, r). OnRow (Obj (toObject names r)) i) (enumerate 0 rs)
      @ [OnEnd (length rs) (errors q)]"
    using assms
    by (cases rs) (simp_all add: finished_def eventsFor_def headerFor_def dataFor_def rowFor_def)
  show "rowsOf (emitted q) = map (\<lambda>r. Obj (toObject names r)) rs"
    using assms
    by (cases rs)
       (simp_all add: finished_def rowsOf_append rowsOf_eventsFor headerFor_def dataFor_def
          rowFor_def)
qed

lemma parse_streamSession:
  "fst (parse input p) =
     \<lparr> res_headers = headers (streamSession [input] p),
       res_rows = rowsOf (emitted (streamSession [input] p)),
       res_errors = errors (streamSession [input] p) \<rparr>"
  by (simp add: parse_def Let_def parseState_streamSession)

lemma firstRow_session:
  "\<exists>rs. rowsOf (emitted (streamSession chunks (newCSVParser (opts\<lparr> headersOpt := HBool False \<rparr>))))
          = map Fields rs
      \<and> headers (streamSession chunks (newCSVParser (opts\<lparr> headersOpt := HBool True \<rparr>)))
          = (case rs of [] \<Rightarrow> None | h # rest \<Rightarrow> Some h)
      \<and> rowsOf (emitted (streamSession chunks (newCSVParser (opts\<lparr> headersOpt := HBool True \<rparr>))))
          = (case rs of [] \<Rightarrow> [] | h # rest \<Rightarrow> map (\<lambda>r. Obj (toObject h r)) rest)
      \<and> errors (streamSession chunks (newCSVParser (opts\<lparr> headersOpt := HBool True \<rparr>)))
          = errors (streamSession chunks (newCSVParser (opts\<lparr> headersOpt := HBool False \<rparr>)))"
proof -
  let ?raw = "streamSession chunks (newCSVParser (opts\<lparr> headersOpt := HBool False \<rparr>))"
  let ?hdr = "streamSession chunks (newCSVParser (opts\<lparr> headersOpt := HBool True \<rparr>))"
  from session_by_mode [where chunks = chunks and opts = opts and h = "HBool True"] obtain rs where
    e: "errors ?hdr = errors ?raw" and r: "finished ?raw rs" and h: "finished ?hdr rs" by blast
  have o1: "headersOpt (options ?raw) = HBool False" by (simp add: newCSVParser_def)
  have o2: "headersOpt (options ?hdr) = HBool True" by (simp add: newCSVParser_def)
  show ?thesis
    using finished_raw [OF r o1] finished_firstRow(1) [OF h o2] finished_firstRow(3) [OF h o2] e
    by blast
qed

lemma explicit_session:
  "\<exists>rs. rowsOf (emitted (streamSession chunks (newCSVParser (opts\<lparr> headersOpt := HBool False \<rparr>))))
          = map Fields rs
      \<and> headers (streamSession chunks (newCSVParser (opts\<lparr> headersOpt := HList names \<rparr>)))
          = (if rs = [] then None else Some names)
      \<and> emitted (streamSession chunks (newCSVParser (opts\<lparr> headersOpt := HList names \<rparr>)))
          = (if rs = [] then [] else [OnHeaders names])
            @ map (\<lambda>(i, r). OnRow (Obj (toObject names r)) i) (enumerate 0 rs)
            @ [OnEnd (length rs)
                 (errors (streamSession chunks (newCSVParser (opts\<lparr> headersOpt := HList names \<rparr>))))]
      \<and> rowsOf (emitted (streamSession chunks (newCSVParser (opts\<lparr> headersOpt := HList names \<rparr>))))
          = map (\<lambda>r. Obj (toObject names r)) rs"
proof -
  let ?raw = "streamSession chunks (newCSVParser (opts\<lparr> headersOpt := HBool False \<rparr>))"
  let ?hdr = "streamSession chunks (newCSVParser (opts\<lparr> headersOpt := HList names \<rparr>))"
  from session_by_mode [where chunks = chunks and opts = opts and h = "HList names"] obtain rs where
    r: "finished ?raw rs" and h: "finished ?hdr rs" by blast
  have o1: "headersOpt (options ?raw) = HBool False" by (simp add: newCSVParser_def)
  have o2: "headersOpt (options ?hdr) = HList names" by (simp add: newCSVParser_def)
  show ?thesis
    using finished_raw [OF r o1] finished_explicit [OF h o2]
    by blast
qed

lemma endRow_rebuffer_fields:
  "headers (endRow (p\<lparr> buffer := B, bufferIndex := I \<rparr>)) = headers (endRow p)"
  "emitted (endRow (p\<lparr> buffer := B, bufferIndex := I \<rparr>)) = emitted (endRow p)"
  "rowIndex (endRow (p\<lparr> buffer := B, bufferIndex := I \<rparr>)) = rowIndex (endRow p)"
  by (auto simp add: endRow_def emitRow_def resetRow_def Let_def
      split: headersOption.splits option.splits)

lemma endRow_rebuffer:
  "endRow (p\<lparr> buffer := B, bufferIndex := I \<rparr>) = (endRow p)\<lparr> buffer := B, bufferIndex := I \<rparr>"
  by (rule CSVParser.equality) (simp_all add: endRow_rebuffer_fields)

lemma endRow_bufferIndex:
  "endRow (p\<lparr> bufferIndex := I \<rparr>) = (endRow p)\<lparr> bufferIndex := I \<rparr>"
  using endRow_rebuffer [where p = p and B = "buffer p" and I = I] by simp

lemma endRow_buffer_upd:
  "endRow (p\<lparr> buffer := B \<rparr>) = (endRow p)\<lparr> buffer := B \<rparr>"
  using endRow_rebuffer [where p = p and B = B and I = "bufferIndex p"] by simp

lemma pc_escaped:
  "inQuotes p \<Longrightarrow> [c] = escape (options p) \<Longrightarrow>
   strictEq (charAt (buffer p) (bufferIndex p + 1)) (quote (options p)) \<Longrightarrow>
   processCharacter c p = p\<lparr> currentField := currentField p @ quote (options p),
     currentColumn := currentColumn p + 2, bufferIndex := bufferIndex p + 1 \<rparr>"
  by (simp add: processCharacter_def)

lemma pc_close:
  "inQuotes p \<Longrightarrow>
   \<not> ([c] = escape (options p) \<and>
      strictEq (charAt (buffer p) (bufferIndex p + 1)) (quote (options p))) \<Longrightarrow>
   [c] = quote (options p) \<Longrightarrow>
   processCharacter c p = p\<lparr> inQuotes := False, currentColumn := currentColumn p + 1 \<rparr>"
  by (auto simp add: processCharacter_def)

lemma pc_quoted_literal:
  "inQuotes p \<Longrightarrow>
   \<not> ([c] = escape (options p) \<and>
      strictEq (charAt (buffer p) (bufferIndex p + 1)) (quote (options p))) \<Longrightarrow>
   [c] \<noteq> quote (options p) \<Longrightarrow>
   processCharacter c p = appendChar c p"
  by (auto simp add: processCharacter_def)

lemma pc_open:
  "\<not> inQuotes p \<Longrightarrow> [c] = quote (options p) \<Longrightarrow> currentField p = [] \<Longrightarrow>
   processCharacter c p = p\<lparr> inQuotes := True, currentColumn := currentColumn p + 1 \<rparr>"
  by (simp add: processCharacter_def)

lemma pc_unexpected:
  "\<not> inQuotes p \<Longrightarrow> [c] = quote (options p) \<Longrightarrow> currentField p \<noteq> [] \<Longrightarrow>
   processCharacter c p = appendChar c (addError ''Unexpected quote character'' p)"
  by (simp add: processCharacter_def)

lemma pc_delimiter:
  "\<not> inQuotes p \<Longrightarrow> [c] \<noteq> quote (options p) \<Longrightarrow> [c] = delimiter (options p) \<Longrightarrow>
   processCharacter c p = p\<lparr> currentRow := currentRow p @ [currentField p],
     currentField := [], currentColumn := currentColumn p + 1 \<rparr>"
  by (simp add: processCharacter_def)

lemma pc_newline:
  "\<not> inQuotes p \<Longrightarrow> [c] \<noteq> quote (options p) \<Longrightarrow> [c] \<noteq> delimiter (options p) \<Longrightarrow>
   c = LF \<or> c = CR \<Longrightarrow>
   processCharacter c p =
     endRow (if c = CR \<and> strictEq (charAt (buffer p) (bufferIndex p + 1)) [LF]
             then p\<lparr> bufferIndex := bufferIndex p + 1 \<rparr> else p)"
  by (simp add: processCharacter_def)

lemma pc_literal:
  "\<not> inQuotes p \<Longrightarrow> [c] \<noteq> quote (options p) \<Longrightarrow> [c] \<noteq> delimiter (options p) \<Longrightarrow>
   \<not> (c = LF \<or> c = CR) \<Longrightarrow>
   processCharacter c p = appendChar c p"
  by (simp add: processCharacter_def)

lemma processCharacter_rebuffer:
  assumes la1: "strictEq (charAt B (I + 1)) (quote (options p))
             = strictEq (charAt (buffer p) (bufferIndex p + 1)) (quote (options p))"
    and la2: "strictEq (charAt B (I + 1)) [LF]
             = strictEq (charAt (buffer p) (bufferIndex p + 1)) [LF]"
  shows "processCharacter c (p\<lparr> buffer := B, bufferIndex := I \<rparr>)
           = (processCharacter c p)
               \<lparr> buffer := B,
                 bufferIndex := I + (bufferIndex (processCharacter c p) - bufferIndex p) \<rparr>"
proof -
  let ?p' = "p\<lparr> buffer := B, bufferIndex := I \<rparr>"
  let ?next = "charAt (buffer p) (bufferIndex p + 1)"
  let ?next' = "charAt (buffer ?p') (bufferIndex ?p' + 1)"
  have n1: "strictEq ?next' (quote (options ?p')) = strictEq ?next (quote (options p))"
    using la1 by simp
  have n2: "strictEq ?next' [LF] = strictEq ?next [LF]"
    using la2 by simp
  have same: "inQuotes ?p' = inQuotes p" "options ?p' = options p"
    "currentField ?p' = currentField p"
    by simp_all
  show ?thesis
  proof (cases "inQuotes p")
    case True
    then have True': "inQuotes ?p'" by simp
    show ?thesis
    proof (cases "[c] = escape (options p) \<and> strictEq ?next (quote (options p))")
      case esc: True
      then have e1: "[c] = escape (options p)" and e2: "strictEq ?next (quote (options p))"
        by simp_all
      from e1 have e1': "[c] = escape (options ?p')" by simp
      from e2 n1 have e2': "strictEq ?next' (quote (options ?p'))" by simp
      show ?thesis
        unfolding pc_escaped [OF True e1 e2] pc_escaped [OF True' e1' e2'] by simp
    next
      case esc: False
      with n1 have esc': "\<not> ([c] = escape (options ?p') \<and> strictEq ?next' (quote (options ?p')))"
        by simp
      show ?thesis
      proof (cases "[c] = quote (options p)")
        case q: True
        then have q': "[c] = quote (options ?p')" by simp
        show ?thesis
          unfolding pc_close [OF True esc q] pc_close [OF True' esc' q'] by simp
      next
        case q: False
        then have q': "[c] \<noteq> quote (options ?p')" by simp
        show ?thesis
          unfolding pc_quoted_literal [OF True esc q] pc_quoted_literal [OF True' esc' q']
          by (simp add: appendChar_def)
      qed
    qed
  next
    case False
    then have False': "\<not> inQuotes ?p'" by simp
    show ?thesis
    proof (cases "[c] = quote (options p)")
      case q: True
      then have q': "[c] = quote (options ?p')" by simp
      show ?thesis
      proof (cases "currentField p = []")
        case e: True
        then have e': "currentField ?p' = []" by simp
        show ?thesis
          unfolding pc_open [OF False q e] pc_open [OF False' q' e'] by simp
      next
        case e: False
        then have e': "currentField ?p' \<noteq> []" by simp
        show ?thesis
          unfolding pc_unexpected [OF False q e] pc_unexpected [OF False' q' e']
          by (simp add: appendChar_def addError_def)
      qed
    next
      case q: False
      then have q': "[c] \<noteq> quote (options ?p')" by simp
      show ?thesis
      proof (cases "[c] = delimiter (options p)")
        case d: True
        then have d': "[c] = delimiter (options ?p')" by simp
        show ?thesis
          unfolding pc_delimiter [OF False q d] pc_delimiter [OF False' q' d'] by simp
      next
        case d: False
        then have d': "[c] \<noteq> delimiter (options ?p')" by simp
        show ?thesis
        proof (cases "c = LF \<or> c = CR")
          case nl: True
          show ?thesis
            unfolding pc_newline [OF False q d nl] pc_newline [OF False' q' d' nl] n2
            by (simp add: endRow_rebuffer endRow_bufferIndex endRow_buffer_upd)
        next
          case nl: False
          show ?thesis
            unfolding pc_literal [OF False q d nl] pc_literal [OF False' q' d' nl]
            by (simp add: appendChar_def)
        qed
      qed
    qed
  qed
qed


lemma buffer_processCharacter [simp]: "buffer (processCharacter c p) = buffer p"
  by (simp add: processCharacter_def appendChar_def addError_def)

lemma buffer_loopStep [simp]: "buffer (loopStep p) = buffer p"
  by (simp add: loopStep_def Let_def)

lemma buffer_processLoop [simp]: "buffer (processLoop p) = buffer p"
proof (induction p rule: processLoop.induct)
  case (1 p)
  show ?case
  proof (cases "bufferIndex p < length (buffer p)")
    case True
    with 1 show ?thesis by (subst processLoop.simps) simp
  next
    case False
    then show ?thesis by (subst processLoop.simps) simp
  qed
qed

lemma strictEq_in_range: "strictEq (charAt b i) s \<Longrightarrow> i < length b"
  by (simp add: strictEq_def charAt_def split: if_splits)

lemma bufferIndex_processCharacter:
  "bufferIndex (processCharacter c p) = bufferIndex p \<or>
   (bufferIndex (processCharacter c p) = bufferIndex p + 1 \<and>
    bufferIndex p + 1 < length (buffer p))"
  using strictEq_in_range [of "buffer p" "bufferIndex p + 1"]
  by (auto simp add: processCharacter_def appendChar_def addError_def)

lemma bufferIndex_loopStep:
  "bufferIndex p < bufferIndex (loopStep p) \<and>
   (bufferIndex p < length (buffer p) \<longrightarrow> bufferIndex (loopStep p) \<le> length (buffer p))"
  using bufferIndex_processCharacter [of "buffer p ! bufferIndex p" p]
  by (auto simp add: loopStep_def Let_def)

lemma loopStep_rebuffer:
  assumes "B ! I = buffer p ! bufferIndex p"
    and "strictEq (charAt B (I + 1)) (quote (options p))
           = strictEq (charAt (buffer p) (bufferIndex p + 1)) (quote (options p))"
    and "strictEq (charAt B (I + 1)) [LF]
           = strictEq (charAt (buffer p) (bufferIndex p + 1)) [LF]"
  shows "loopStep (p\<lparr> buffer := B, bufferIndex := I \<rparr>)
           = (loopStep p)\<lparr> buffer := B,
                bufferIndex := I + (bufferIndex (loopStep p) - bufferIndex p) \<rparr>"
proof -
  let ?c = "buffer p ! bufferIndex p"
  have ge: "bufferIndex p \<le> bufferIndex (processCharacter ?c p)"
    using bufferIndex_processCharacter [of ?c p] by auto
  have "loopStep (p\<lparr> buffer := B, bufferIndex := I \<rparr>)
      = (processCharacter ?c p)\<lparr> buffer := B,
          bufferIndex := I + (bufferIndex (processCharacter ?c p) - bufferIndex p) + 1 \<rparr>"
    using assms(1) processCharacter_rebuffer [OF assms(2) assms(3), of ?c]
    by (simp add: loopStep_def Let_def)
  moreover have "(loopStep p)\<lparr> buffer := B,
                bufferIndex := I + (bufferIndex (loopStep p) - bufferIndex p) \<rparr>
      = (processCharacter ?c p)\<lparr> buffer := B,
          bufferIndex := I + (bufferIndex (processCharacter ?c p) - bufferIndex p) + 1 \<rparr>"
    using ge by (simp add: loopStep_def Let_def)
  ultimately show ?thesis by simp
qed

lemma charAt_drop: "k \<le> i \<Longrightarrow> charAt (drop k b) (Suc (i - k)) = charAt b (Suc i)"
  by (auto simp add: charAt_def)

lemma processLoop_shift:
  "k \<le> bufferIndex p \<Longrightarrow>
   processLoop (p\<lparr> buffer := drop k (buffer p), bufferIndex := bufferIndex p - k \<rparr>)
     = (processLoop p)\<lparr> buffer := drop k (buffer p),
          bufferIndex := bufferIndex (processLoop p) - k \<rparr>"
proof (induction p rule: processLoop.induct)
  case (1 p)
  let ?sh = "\<lambda>q. q\<lparr> buffer := drop k (buffer p), bufferIndex := bufferIndex q - k \<rparr>"
  show ?case
  proof (cases "bufferIndex p < length (buffer p)")
    case True
    have step: "loopStep (?sh p) = ?sh (loopStep p)"
    proof -
      have "loopStep (?sh p) = (loopStep p)\<lparr> buffer := drop k (buffer p),
          bufferIndex := (bufferIndex p - k) + (bufferIndex (loopStep p) - bufferIndex p) \<rparr>"
        using "1.prems" True
        by (intro loopStep_rebuffer) (simp_all add: charAt_drop)
      moreover have "(bufferIndex p - k) + (bufferIndex (loopStep p) - bufferIndex p)
          = bufferIndex (loopStep p) - k"
        using "1.prems" bufferIndex_loopStep [of p] by simp
      ultimately show ?thesis by simp
    qed
    have k': "k \<le> bufferIndex (loopStep p)"
      using "1.prems" bufferIndex_loopStep [of p] by simp
    from True "1.prems" have lt: "bufferIndex (?sh p) < length (buffer (?sh p))"
      by simp
    have "processLoop (?sh p) = processLoop (loopStep (?sh p))"
      using lt by (subst processLoop.simps) simp
    also have "\<dots> = processLoop (?sh (loopStep p))" by (simp only: step)
    also have "\<dots> = (processLoop (loopStep p))\<lparr> buffer := drop k (buffer p),
          bufferIndex := bufferIndex (processLoop (loopStep p)) - k \<rparr>"
      using "1.IH" [OF True k'] by simp
    also have "processLoop (loopStep p) = processLoop p"
      using True by (subst (2) processLoop.simps) simp
    finally show ?thesis .
  next
    case False
    then have "processLoop p = p" by (subst processLoop.simps) simp
    moreover from False have "\<not> bufferIndex (?sh p) < length (buffer (?sh p))"
      by simp
    then have "processLoop (?sh p) = ?sh p" by (subst processLoop.simps) simp
    ultimately show ?thesis by simp
  qed
qed


lemma lookahead_append:
  assumes "i < length xs" and "safeStart opts ys" and "s = quote opts \<or> s = [LF]"
  shows "strictEq (charAt (xs @ ys) (Suc i)) s = strictEq (charAt xs (Suc i)) s"
proof (cases "Suc i < length xs")
  case True
  then show ?thesis by (simp add: charAt_def nth_append)
next
  case False
  with assms(1) have i: "Suc i = length xs" by simp
  show ?thesis
  proof (cases ys)
    case Nil
    then show ?thesis by simp
  next
    case (Cons c cs)
    with assms(2) have "[c] \<noteq> quote opts" and "c \<noteq> LF" by (simp_all add: safeStart_def)
    with assms(3) Cons i show ?thesis
      by (auto simp add: charAt_def strictEq_def)
  qed
qed

lemma processLoop_extend:
  "bufferIndex p \<le> length (buffer p) \<Longrightarrow> safeStart (options p) ys \<Longrightarrow>
   processLoop (p\<lparr> buffer := buffer p @ ys \<rparr>)
     = processLoop ((processLoop p)\<lparr> buffer := buffer p @ ys \<rparr>)
   \<and> bufferIndex (processLoop p) = length (buffer p)"
proof (induction p rule: processLoop.induct)
  case (1 p)
  let ?ext = "\<lambda>q. q\<lparr> buffer := buffer p @ ys \<rparr>"
  show ?case
  proof (cases "bufferIndex p < length (buffer p)")
    case True
    have "loopStep (p\<lparr> buffer := buffer p @ ys, bufferIndex := bufferIndex p \<rparr>)
        = (loopStep p)\<lparr> buffer := buffer p @ ys,
            bufferIndex := bufferIndex p + (bufferIndex (loopStep p) - bufferIndex p) \<rparr>"
      using True "1.prems"(2)
      by (intro loopStep_rebuffer) (simp_all add: nth_append lookahead_append)
    moreover have "bufferIndex p + (bufferIndex (loopStep p) - bufferIndex p)
        = bufferIndex (loopStep p)"
      using bufferIndex_loopStep [of p] by simp
    ultimately have step: "loopStep (?ext p) = ?ext (loopStep p)" by simp
    have le: "bufferIndex (loopStep p) \<le> length (buffer (loopStep p))"
      using bufferIndex_loopStep [of p] True by simp
    have safe: "safeStart (options (loopStep p)) ys" using "1.prems"(2) by simp
    from "1.IH" [OF True le safe]
    have ih: "processLoop (?ext (loopStep p))
          = processLoop (?ext (processLoop (loopStep p)))"
      and ix: "bufferIndex (processLoop (loopStep p)) = length (buffer p)"
      by simp_all
    have unfold: "processLoop p = processLoop (loopStep p)"
      using True by (subst processLoop.simps) simp
    from True have "bufferIndex (?ext p) < length (buffer (?ext p))" by simp
    then have "processLoop (?ext p) = processLoop (loopStep (?ext p))"
      by (subst processLoop.simps) simp
    also have "\<dots> = processLoop (?ext (loopStep p))" by (simp only: step)
    also have "\<dots> = processLoop (?ext (processLoop (loopStep p)))" by (rule ih)
    finally show ?thesis using ix unfold by simp
  next
    case False
    then have "processLoop p = p" by (subst processLoop.simps) simp
    with False "1.prems"(1) show ?thesis by simp
  qed
qed

lemma bufferIndex_buffer_swap:
  "p\<lparr> bufferIndex := i, buffer := b \<rparr> = p\<lparr> buffer := b, bufferIndex := i \<rparr>"
  by (cases p) simp

lemma processChunk_join:
  assumes "buffer p = []" and "safeStart (options p) ys"
  shows "processChunk ys (processChunk xs p) = processChunk (xs @ ys) p"
proof -
  let ?p0 = "p\<lparr> buffer := xs, bufferIndex := 0 \<rparr>"
  let ?q = "processLoop ?p0"
  have first: "processChunk xs p = ?q\<lparr> buffer := [], bufferIndex := 0 \<rparr>"
    using assms(1) by (simp add: processChunk_def)
  have ext: "processLoop (?p0\<lparr> buffer := buffer ?p0 @ ys \<rparr>)
        = processLoop (?q\<lparr> buffer := buffer ?p0 @ ys \<rparr>)"
    and ix: "bufferIndex ?q = length (buffer ?p0)"
    using processLoop_extend [of ?p0 ys] assms(2) by simp_all
  let ?q1 = "?q\<lparr> buffer := xs @ ys \<rparr>"
  have whole: "processChunk (xs @ ys) p = (processLoop ?q1)\<lparr> buffer := [], bufferIndex := 0 \<rparr>"
    using assms(1) ext by (simp add: processChunk_def bufferIndex_buffer_swap)
  have "processLoop (?q1\<lparr> buffer := drop (length xs) (buffer ?q1),
            bufferIndex := bufferIndex ?q1 - length xs \<rparr>)
      = (processLoop ?q1)\<lparr> buffer := drop (length xs) (buffer ?q1),
            bufferIndex := bufferIndex (processLoop ?q1) - length xs \<rparr>"
    using ix by (intro processLoop_shift) simp
  then have shifted: "processLoop (?q\<lparr> buffer := ys, bufferIndex := 0 \<rparr>)
      = (processLoop ?q1)\<lparr> buffer := ys,
            bufferIndex := bufferIndex (processLoop ?q1) - length xs \<rparr>"
    using ix by simp
  have "processChunk ys (processChunk xs p)
      = (processLoop (?q\<lparr> buffer := ys, bufferIndex := 0 \<rparr>))\<lparr> buffer := [], bufferIndex := 0 \<rparr>"
    using assms(1) by (simp add: processChunk_def)
  also have "\<dots> = (processLoop ?q1)\<lparr> buffer := [], bufferIndex := 0 \<rparr>"
    by (simp add: shifted)
  finally show ?thesis by (simp add: whole)
qed

lemma buffer_processChunk [simp]: "buffer (processChunk chunk p) = []"
  by (simp add: processChunk_def)

lemma writes_join:
  "buffer p = [] \<Longrightarrow> \<forall>chunk \<in> set chunks. safeStart (options p) chunk \<Longrightarrow>
   foldl (\<lambda>s chunk. stream_write chunk s) (processChunk first p) chunks
     = processChunk (first @ concat chunks) p"
proof (induction chunks arbitrary: first)
  case Nil
  then show ?case by simp
next
  case (Cons chunk chunks)
  from Cons.prems have "processChunk chunk (processChunk first p) = processChunk (first @ chunk) p"
    by (intro processChunk_join) simp_all
  with Cons show ?case by (simp add: stream_write_def)
qed

text \<open>
  Claim C10. Calling \<open>parse\<close> on a parser that has already parsed another input returns
  the same result (headers, rows, errors) as calling it on a freshly constructed parser
  with the same options: \<open>parse\<close> resets every mutable field before it processes the
  input, and no method changes the options.
\<close>

theorem parse_isolates_sessions:
  "fst (parse s2 (snd (parse s1 p))) = fst (parse s2 (newCSVParser (options p)))"
proof -
  have "options (snd (parse s1 p)) = options p"
    by (simp add: parse_def Let_def)
  then show ?thesis
    using parse_fresh [of s2 "snd (parse s1 p)"] by simp
qed


section \<open>The lexical state machine\<close>

text \<open>
  The escaped quote inside one buffer. Inside a quoted field, when the character at the
  buffer index equals the escape string and the next character of the buffer equals the
  quote string, one turn of the loop of \<open>processChunk\<close> appends exactly one quote
  character to the current field, advances the column by 2, consumes both characters
  (the buffer index advances by 2) and leaves the parser in quoted mode. With the default
  options (quote and escape both the double quote), \<open>parse\<close> of \<open>"He said ""hi""",2\<close>
  yields the single row of the two fields \<open>He said "hi"\<close> and \<open>2\<close>.
\<close>

lemma escaped_quote_within_buffer:
  assumes "inQuotes p"
    and "bufferIndex p < length (buffer p)"
    and "[buffer p ! bufferIndex p] = escape (options p)"
    and "charAt (buffer p) (bufferIndex p + 1) = Some q"
    and "[q] = quote (options p)"
  shows "loopStep p = p\<lparr> currentField := currentField p @ [q],
                          currentColumn := currentColumn p + 2,
                          bufferIndex := bufferIndex p + 2 \<rparr>
       \<and> inQuotes (loopStep p)
       \<and> fst (parse ([DQ] @ ''He said '' @ [DQ, DQ] @ ''hi'' @ [DQ, DQ, DQ] @ '',2'')
               (newCSVParser defaultOptions))
         = \<lparr> res_headers = None,
             res_rows = [Fields [''He said '' @ [DQ] @ ''hi'' @ [DQ], ''2'']],
             res_errors = [] \<rparr>"
proof -
  have step: "loopStep p = p\<lparr> currentField := currentField p @ [q],
                          currentColumn := currentColumn p + 2,
                          bufferIndex := bufferIndex p + 2 \<rparr>"
    using assms by (simp add: loopStep_def processCharacter_def strictEq_def Let_def)
  have still: "inQuotes (loopStep p)"
    using assms(1) by (simp add: step)
  have example: "fst (parse ([DQ] @ ''He said '' @ [DQ, DQ] @ ''hi'' @ [DQ, DQ, DQ] @ '',2'')
               (newCSVParser defaultOptions))
         = \<lparr> res_headers = None,
             res_rows = [Fields [''He said '' @ [DQ] @ ''hi'' @ [DQ], ''2'']],
             res_errors = [] \<rparr>"
    by code_simp
  show ?thesis by (intro conjI) (rule step, rule still, rule example)
qed

lemma escaped_quote_within_buffer_example:
  "loopStep ((newCSVParser defaultOptions)
        \<lparr> buffer := [DQ, CHR ''a'', DQ, DQ, DQ], bufferIndex := 2, inQuotes := True,
          currentField := ''a'', currentColumn := 3 \<rparr>)
     = (newCSVParser defaultOptions)
        \<lparr> buffer := [DQ, CHR ''a'', DQ, DQ, DQ], bufferIndex := 4, inQuotes := True,
          currentField := [CHR ''a'', DQ], currentColumn := 5 \<rparr>"
proof -
  let ?p = "(newCSVParser defaultOptions)
        \<lparr> buffer := [DQ, CHR ''a'', DQ, DQ, DQ], bufferIndex := 2, inQuotes := True,
          currentField := ''a'', currentColumn := 3 \<rparr>"
  have h1: "inQuotes ?p" by simp
  have h2: "bufferIndex ?p < length (buffer ?p)" by simp
  have h3: "[buffer ?p ! bufferIndex ?p] = escape (options ?p)"
    by (simp add: newCSVParser_def defaultOptions_def)
  have h4: "charAt (buffer ?p) (bufferIndex ?p + 1) = Some DQ"
    by (simp add: charAt_def)
  have h5: "[DQ] = quote (options ?p)"
    by (simp add: newCSVParser_def defaultOptions_def)
  have "loopStep ?p = ?p\<lparr> currentField := currentField ?p @ [DQ],
                          currentColumn := currentColumn ?p + 2,
                          bufferIndex := bufferIndex ?p + 2 \<rparr>"
    using escaped_quote_within_buffer [OF h1 h2 h3 h4 h5] by (rule conjunct1)
  then show ?thesis by (simp add: newCSVParser_def)
qed

text \<open>
  Claim C2 where two \<open>write\<close> calls split the pair. The look-ahead reads the next
  character of the buffer, which holds the current chunk only. In the input \<open>"a""b"\<close> the
  third character is an escape character inside a quoted field and the fourth is a quote
  character. With the whole input in the buffer, the turn at the third character appends
  one quote, advances the column by 2, consumes both characters and stays in quoted
  mode. With the chunk \<open>"a"\<close> in the buffer, the same turn finds no next character: it
  leaves quoted mode, appends nothing and advances the column by 1; the quote character
  that opens the next chunk \<open>"b"\<close> is then an unexpected quote, appended with a diagnostic.
\<close>

theorem escaped_quote_split_between_writes:
  "loopStep ((newCSVParser defaultOptions)
        \<lparr> buffer := [DQ, CHR ''a'', DQ, DQ, CHR ''b'', DQ], bufferIndex := 2,
          inQuotes := True, currentField := ''a'', currentColumn := 3 \<rparr>)
     = (newCSVParser defaultOptions)
        \<lparr> buffer := [DQ, CHR ''a'', DQ, DQ, CHR ''b'', DQ], bufferIndex := 4,
          inQuotes := True, currentField := [CHR ''a'', DQ], currentColumn := 5 \<rparr>
   \<and> loopStep ((newCSVParser defaultOptions)
        \<lparr> buffer := [DQ, CHR ''a'', DQ], bufferIndex := 2,
          inQuotes := True, currentField := ''a'', currentColumn := 3 \<rparr>)
     = (newCSVParser defaultOptions)
        \<lparr> buffer := [DQ, CHR ''a'', DQ], bufferIndex := 3,
          inQuotes := False, currentField := ''a'', currentColumn := 4 \<rparr>
   \<and> stream_write [DQ, CHR ''a'', DQ] (parseStream (newCSVParser defaultOptions))
     = (newCSVParser defaultOptions)\<lparr> currentField := ''a'', currentColumn := 4 \<rparr>
   \<and> stream_write [DQ, CHR ''b'', DQ]
       (stream_write [DQ, CHR ''a'', DQ] (parseStream (newCSVParser defaultOptions)))
     = (newCSVParser defaultOptions)
        \<lparr> currentField := [CHR ''a'', DQ, CHR ''b'', DQ], currentColumn := 7,
          errors := [\<lparr> line = 1, column = 4, message = ''Unexpected quote character'' \<rparr>,
                     \<lparr> line = 1, column = 6, message = ''Unexpected quote character'' \<rparr>] \<rparr>
   \<and> processChunk [DQ, CHR ''a'', DQ, DQ, CHR ''b'', DQ] (parseStream (newCSVParser defaultOptions))
     = (newCSVParser defaultOptions)\<lparr> currentField := [CHR ''a'', DQ, CHR ''b''], currentColumn := 7 \<rparr>"
proof -
  have whole: "loopStep ((newCSVParser defaultOptions)
        \<lparr> buffer := [DQ, CHR ''a'', DQ, DQ, CHR ''b'', DQ], bufferIndex := 2,
          inQuotes := True, currentField := ''a'', currentColumn := 3 \<rparr>)
     = (newCSVParser defaultOptions)
        \<lparr> buffer := [DQ, CHR ''a'', DQ, DQ, CHR ''b'', DQ], bufferIndex := 4,
          inQuotes := True, currentField := [CHR ''a'', DQ], currentColumn := 5 \<rparr>"
    by code_simp
  have split: "loopStep ((newCSVParser defaultOptions)
        \<lparr> buffer := [DQ, CHR ''a'', DQ], bufferIndex := 2,
          inQuotes := True, currentField := ''a'', currentColumn := 3 \<rparr>)
     = (newCSVParser defaultOptions)
        \<lparr> buffer := [DQ, CHR ''a'', DQ], bufferIndex := 3,
          inQuotes := False, currentField := ''a'', currentColumn := 4 \<rparr>"
    by code_simp
  have first: "stream_write [DQ, CHR ''a'', DQ] (parseStream (newCSVParser defaultOptions))
     = (newCSVParser defaultOptions)\<lparr> currentField := ''a'', currentColumn := 4 \<rparr>"
    by code_simp
  have second: "stream_write [DQ, CHR ''b'', DQ]
       (stream_write [DQ, CHR ''a'', DQ] (parseStream (newCSVParser defaultOptions)))
     = (newCSVParser defaultOptions)
        \<lparr> currentField := [CHR ''a'', DQ, CHR ''b'', DQ], currentColumn := 7,
          errors := [\<lparr> line = 1, column = 4, message = ''Unexpected quote character'' \<rparr>,
                     \<lparr> line = 1, column = 6, message = ''Unexpected quote character'' \<rparr>] \<rparr>"
    by code_simp
  have one: "processChunk [DQ, CHR ''a'', DQ, DQ, CHR ''b'', DQ] (parseStream (newCSVParser defaultOptions))
     = (newCSVParser defaultOptions)\<lparr> currentField := [CHR ''a'', DQ, CHR ''b''], currentColumn := 7 \<rparr>"
    by code_simp
  show ?thesis by (intro conjI) (rule whole, rule split, rule first, rule second, rule one)
qed

text \<open>
  Claim C5. Outside a quoted field, a character equal to the quote string is handled by
  the content of the current field: when the field is not empty, the diagnostic
  "Unexpected quote character" is recorded at the current line and column, the character
  is appended to the field and quoted mode is not entered; when the field is empty,
  quoted mode is entered and nothing is appended. \<open>parse\<close> of \<open>ab"c,d\<close> yields that
  diagnostic and the first field \<open>ab"c\<close>.
\<close>

theorem unexpected_quote_outside_quotes:
  assumes "\<not> inQuotes p" and "[c] = quote (options p)"
  shows "processCharacter c p =
           (if currentField p \<noteq> []
            then p\<lparr> errors := errors p @
                       [\<lparr> line = currentLine p, column = currentColumn p,
                          message = ''Unexpected quote character'' \<rparr>],
                    currentField := currentField p @ [c],
                    currentColumn := currentColumn p + 1 \<rparr>
            else p\<lparr> inQuotes := True, currentColumn := currentColumn p + 1 \<rparr>)
       \<and> fst (parse (''ab'' @ [DQ] @ ''c,d'') (newCSVParser defaultOptions))
         = \<lparr> res_headers = None,
             res_rows = [Fields [''ab'' @ [DQ] @ ''c'', ''d'']],
             res_errors = [\<lparr> line = 1, column = 3,
                             message = ''Unexpected quote character'' \<rparr>] \<rparr>"
proof -
  have example: "fst (parse (''ab'' @ [DQ] @ ''c,d'') (newCSVParser defaultOptions))
         = \<lparr> res_headers = None,
             res_rows = [Fields [''ab'' @ [DQ] @ ''c'', ''d'']],
             res_errors = [\<lparr> line = 1, column = 3,
                             message = ''Unexpected quote character'' \<rparr>] \<rparr>"
    by code_simp
  have step: "processCharacter c p =
           (if currentField p \<noteq> []
            then p\<lparr> errors := errors p @
                       [\<lparr> line = currentLine p, column = currentColumn p,
                          message = ''Unexpected quote character'' \<rparr>],
                    currentField := currentField p @ [c],
                    currentColumn := currentColumn p + 1 \<rparr>
            else p\<lparr> inQuotes := True, currentColumn := currentColumn p + 1 \<rparr>)"
    using assms by (simp add: processCharacter_def appendChar_def addError_def)
  show ?thesis by (intro conjI) (rule step, rule example)
qed

theorem unexpected_quote_outside_quotes_witness:
  "processCharacter DQ ((newCSVParser defaultOptions)\<lparr> currentField := ''ab'', currentColumn := 3 \<rparr>)
     = (newCSVParser defaultOptions)
         \<lparr> currentField := ''ab'' @ [DQ], currentColumn := 4,
           errors := [\<lparr> line = 1, column = 3, message = ''Unexpected quote character'' \<rparr>] \<rparr>"
proof -
  let ?p = "(newCSVParser defaultOptions)\<lparr> currentField := ''ab'', currentColumn := 3 \<rparr>"
  have h1: "\<not> inQuotes ?p" by (simp add: newCSVParser_def)
  have h2: "[DQ] = quote (options ?p)" by (simp add: newCSVParser_def defaultOptions_def)
  have "processCharacter DQ ?p =
           (if currentField ?p \<noteq> []
            then ?p\<lparr> errors := errors ?p @
                       [\<lparr> line = currentLine ?p, column = currentColumn ?p,
                          message = ''Unexpected quote character'' \<rparr>],
                    currentField := currentField ?p @ [DQ],
                    currentColumn := currentColumn ?p + 1 \<rparr>
            else ?p\<lparr> inQuotes := True, currentColumn := currentColumn ?p + 1 \<rparr>)"
    using unexpected_quote_outside_quotes [OF h1 h2] by (rule conjunct1)
  then show ?thesis by (simp add: newCSVParser_def)
qed

section \<open>The field and row assembler\<close>

text \<open>
  Claim C7. With \<open>headers: true\<close> and no header resolved yet, a row that is not skipped
  as an empty line becomes the header: its fields are stored in \<open>headers\<close> and reported
  by \<open>onHeaders\<close>, no \<open>onRow\<close> call is made for it and \<open>rowIndex\<close> keeps its value.
  Over a whole input: with \<open>rs\<close> the rows that \<open>parse\<close> returns for the input without a
  header option, \<open>parse\<close> with \<open>headers: true\<close> returns the first of \<open>rs\<close> as header, the
  others as data rows keyed by it, and the same diagnostics. \<open>parse\<close> of the two lines
  \<open>a,b,c\<close> and \<open>1,2,3\<close> yields the header \<open>a, b, c\<close>, the one data row
  \<open>{a: 1, b: 2, c: 3}\<close> and no diagnostic.
\<close>

theorem first_row_becomes_header:
  assumes "headersOpt (options p) = HBool True" and "headers p = None"
    and "\<not> (skipEmptyLines (options p) \<and> currentRow p = [] \<and> currentField p = [])"
  shows "endRow p = p\<lparr> currentRow := [], currentField := [],
                        currentLine := currentLine p + 1, currentColumn := 1,
                        headers := Some (currentRow p @ [currentField p]),
                        emitted := emitted p @ [OnHeaders (currentRow p @ [currentField p])] \<rparr>
       \<and> rowIndex (endRow p) = rowIndex p
       \<and> rowsOf (emitted (endRow p)) = rowsOf (emitted p)
       \<and> (\<exists>rs. res_rows (fst (parse input (newCSVParser (opts\<lparr> headersOpt := HBool False \<rparr>))))
                  = map Fields rs
              \<and> fst (parse input (newCSVParser (opts\<lparr> headersOpt := HBool True \<rparr>)))
                  = \<lparr> res_headers = (case rs of [] \<Rightarrow> None | h # rest \<Rightarrow> Some h),
                      res_rows = (case rs of [] \<Rightarrow> []
                                  | h # rest \<Rightarrow> map (\<lambda>r. Obj (toObject h r)) rest),
                      res_errors = res_errors (fst (parse input
                          (newCSVParser (opts\<lparr> headersOpt := HBool False \<rparr>)))) \<rparr>)
       \<and> fst (parse (''a,b,c'' @ [LF] @ ''1,2,3'')
               (newCSVParser (defaultOptions\<lparr> headersOpt := HBool True \<rparr>)))
         = \<lparr> res_headers = Some [''a'', ''b'', ''c''],
             res_rows = [Obj [(''a'', ''1''), (''b'', ''2''), (''c'', ''3'')]],
             res_errors = [] \<rparr>"
proof -
  have step: "endRow p = p\<lparr> currentRow := [], currentField := [],
                        currentLine := currentLine p + 1, currentColumn := 1,
                        headers := Some (currentRow p @ [currentField p]),
                        emitted := emitted p @ [OnHeaders (currentRow p @ [currentField p])] \<rparr>"
    using assms by (cases "currentRow p") (simp_all add: endRow_def resetRow_def Let_def)
  have example: "fst (parse (''a,b,c'' @ [LF] @ ''1,2,3'')
               (newCSVParser (defaultOptions\<lparr> headersOpt := HBool True \<rparr>)))
         = \<lparr> res_headers = Some [''a'', ''b'', ''c''],
             res_rows = [Obj [(''a'', ''1''), (''b'', ''2''), (''c'', ''3'')]],
             res_errors = [] \<rparr>"
    by code_simp
  have idx: "rowIndex (endRow p) = rowIndex p" by (simp add: step)
  have rows: "rowsOf (emitted (endRow p)) = rowsOf (emitted p)"
    by (simp add: step rowsOf_append)
  have session: "\<exists>rs. res_rows (fst (parse input (newCSVParser (opts\<lparr> headersOpt := HBool False \<rparr>))))
                  = map Fields rs
              \<and> fst (parse input (newCSVParser (opts\<lparr> headersOpt := HBool True \<rparr>)))
                  = \<lparr> res_headers = (case rs of [] \<Rightarrow> None | h # rest \<Rightarrow> Some h),
                      res_rows = (case rs of [] \<Rightarrow> []
                                  | h # rest \<Rightarrow> map (\<lambda>r. Obj (toObject h r)) rest),
                      res_errors = res_errors (fst (parse input
                          (newCSVParser (opts\<lparr> headersOpt := HBool False \<rparr>)))) \<rparr>"
  proof -
    from firstRow_session [where chunks = "[input]" and opts = opts] obtain rs where
      a: "rowsOf (emitted (streamSession [input] (newCSVParser (opts\<lparr> headersOpt := HBool False \<rparr>))))
          = map Fields rs"
      and b: "headers (streamSession [input] (newCSVParser (opts\<lparr> headersOpt := HBool True \<rparr>)))
          = (case rs of [] \<Rightarrow> None | h # rest \<Rightarrow> Some h)"
      and c: "rowsOf (emitted (streamSession [input] (newCSVParser (opts\<lparr> headersOpt := HBool True \<rparr>))))
          = (case rs of [] \<Rightarrow> [] | h # rest \<Rightarrow> map (\<lambda>r. Obj (toObject h r)) rest)"
      and d: "errors (streamSession [input] (newCSVParser (opts\<lparr> headersOpt := HBool True \<rparr>)))
          = errors (streamSession [input] (newCSVParser (opts\<lparr> headersOpt := HBool False \<rparr>)))"
      by blast
    show ?thesis
      by (rule exI [of _ rs]) (simp add: parse_streamSession a b c d)
  qed
  show ?thesis by (intro conjI) (rule step, rule idx, rule rows, rule session, rule example)
qed

theorem first_row_becomes_header_witness:
  "endRow ((newCSVParser (defaultOptions\<lparr> headersOpt := HBool True \<rparr>))
             \<lparr> currentRow := [''a'', ''b''], currentField := ''c'', currentColumn := 6 \<rparr>)
     = (newCSVParser (defaultOptions\<lparr> headersOpt := HBool True \<rparr>))
             \<lparr> currentLine := 2, headers := Some [''a'', ''b'', ''c''],
               emitted := [OnHeaders [''a'', ''b'', ''c'']] \<rparr>"
proof -
  let ?p = "(newCSVParser (defaultOptions\<lparr> headersOpt := HBool True \<rparr>))
             \<lparr> currentRow := [''a'', ''b''], currentField := ''c'', currentColumn := 6 \<rparr>"
  have h1: "headersOpt (options ?p) = HBool True" by (simp add: newCSVParser_def)
  have h2: "headers ?p = None" by (simp add: newCSVParser_def)
  have h3: "\<not> (skipEmptyLines (options ?p) \<and> currentRow ?p = [] \<and> currentField ?p = [])"
    by simp
  have "endRow ?p = ?p\<lparr> currentRow := [], currentField := [],
                        currentLine := currentLine ?p + 1, currentColumn := 1,
                        headers := Some (currentRow ?p @ [currentField ?p]),
                        emitted := emitted ?p @ [OnHeaders (currentRow ?p @ [currentField ?p])] \<rparr>"
    using first_row_becomes_header [OF h1 h2 h3] by (rule conjunct1)
  then show ?thesis by (simp add: newCSVParser_def)
qed

text \<open>
  Claim C9. A completed row of exactly one field whose text is empty is an empty line.
  With \<open>skipEmptyLines\<close> it is discarded: \<open>rowIndex\<close>, the header and the callbacks are
  untouched, and only the line counter advances (the column returns to 1). \<open>parse\<close> of
  the lines \<open>a,b\<close>, an empty line and \<open>c,d\<close> yields exactly two rows and ends on line 4;
  without \<open>skipEmptyLines\<close> the middle row is emitted as the one empty field. With
  \<open>headers: true\<close>, an empty first line is not taken as the header: the next line is.
\<close>

theorem empty_line_skipped:
  assumes "currentRow p = []" and "currentField p = []" and "skipEmptyLines (options p)"
  shows "endRow p = p\<lparr> currentLine := currentLine p + 1, currentColumn := 1 \<rparr>
       \<and> fst (parse (''a,b'' @ [LF, LF] @ ''c,d'') (newCSVParser defaultOptions))
         = \<lparr> res_headers = None, res_rows = [Fields [''a'', ''b''], Fields [''c'', ''d'']],
             res_errors = [] \<rparr>
       \<and> currentLine (snd (parse (''a,b'' @ [LF, LF] @ ''c,d'') (newCSVParser defaultOptions))) = 4
       \<and> fst (parse (''a,b'' @ [LF, LF] @ ''c,d'')
               (newCSVParser (defaultOptions\<lparr> skipEmptyLines := False \<rparr>)))
         = \<lparr> res_headers = None,
             res_rows = [Fields [''a'', ''b''], Fields [''''], Fields [''c'', ''d'']],
             res_errors = [] \<rparr>
       \<and> fst (parse ([LF] @ ''a,b'' @ [LF, LF] @ ''1,2'')
               (newCSVParser (defaultOptions\<lparr> headersOpt := HBool True \<rparr>)))
         = \<lparr> res_headers = Some [''a'', ''b''],
             res_rows = [Obj [(''a'', ''1''), (''b'', ''2'')]], res_errors = [] \<rparr>"
proof -
  have step: "endRow p = p\<lparr> currentLine := currentLine p + 1, currentColumn := 1 \<rparr>"
    using assms by (simp add: endRow_def resetRow_def Let_def)
  have ex1: "fst (parse (''a,b'' @ [LF, LF] @ ''c,d'') (newCSVParser defaultOptions))
         = \<lparr> res_headers = None, res_rows = [Fields [''a'', ''b''], Fields [''c'', ''d'']],
             res_errors = [] \<rparr>"
    by code_simp
  have ex2: "currentLine (snd (parse (''a,b'' @ [LF, LF] @ ''c,d'') (newCSVParser defaultOptions))) = 4"
    by code_simp
  have ex3: "fst (parse (''a,b'' @ [LF, LF] @ ''c,d'')
               (newCSVParser (defaultOptions\<lparr> skipEmptyLines := False \<rparr>)))
         = \<lparr> res_headers = None,
             res_rows = [Fields [''a'', ''b''], Fields [''''], Fields [''c'', ''d'']],
             res_errors = [] \<rparr>"
    by code_simp
  have ex4: "fst (parse ([LF] @ ''a,b'' @ [LF, LF] @ ''1,2'')
               (newCSVParser (defaultOptions\<lparr> headersOpt := HBool True \<rparr>)))
         = \<lparr> res_headers = Some [''a'', ''b''],
             res_rows = [Obj [(''a'', ''1''), (''b'', ''2'')]], res_errors = [] \<rparr>"
    by code_simp
  show ?thesis by (intro conjI) (rule step, rule ex1, rule ex2, rule ex3, rule ex4)
qed

theorem empty_line_skipped_witness:
  "endRow ((newCSVParser defaultOptions)\<lparr> currentLine := 2, rowIndex := 1 \<rparr>)
     = (newCSVParser defaultOptions)\<lparr> currentLine := 3, rowIndex := 1 \<rparr>"
proof -
  let ?p = "(newCSVParser defaultOptions)\<lparr> currentLine := 2, rowIndex := 1 \<rparr>"
  have h1: "currentRow ?p = []" by (simp add: newCSVParser_def)
  have h2: "currentField ?p = []" by (simp add: newCSVParser_def)
  have h3: "skipEmptyLines (options ?p)" by (simp add: newCSVParser_def defaultOptions_def)
  have "endRow ?p = ?p\<lparr> currentLine := currentLine ?p + 1, currentColumn := 1 \<rparr>"
    using empty_line_skipped [OF h1 h2 h3] by (rule conjunct1)
  then show ?thesis by (simp add: newCSVParser_def)
qed


text \<open>
  Claim C8, as amended. The object built for a data row has as keys exactly the header
  names other than \<open>__proto__\<close>, and such a name is bound to the field at the position of
  its last occurrence in the header (for a header without repeated names: each name to
  the field at its own position). A position beyond the end of the row gives the empty
  string, and fields beyond the end of the header are not in the object. When no name
  is repeated, none is \<open>__proto__\<close> and none is an array index, the keys enumerate in the
  order of the header; array indices enumerate first, in ascending order. The header
  \<open>a, b, c\<close> with the row \<open>1, 2\<close> gives \<open>{a: 1, b: 2, c: ""}\<close> and with the row
  \<open>1, 2, 3, 4\<close> gives \<open>{a: 1, b: 2, c: 3}\<close>.
\<close>

theorem header_row_mismatch_policy:
  assumes "i < length hs" and "hs ! i \<notin> set (drop (Suc i) hs)"
    and "hs ! i \<noteq> ''__proto__''"
  shows "map_of (toObject hs r) (hs ! i) = Some (if i < length r then r ! i else [])
       \<and> fst ` set (toObject hs r) = set hs - {''__proto__''}
       \<and> (distinct hs \<and> ''__proto__'' \<notin> set hs \<and> list_all (\<lambda>k. arrayIndex k = None) hs \<longrightarrow>
            toObject hs r
              = zip hs (map (\<lambda>i. if i < length r then r ! i else []) [0..<length hs]))
       \<and> toObject [''a'', ''b'', ''c''] [''1'', ''2'']
           = [(''a'', ''1''), (''b'', ''2''), (''c'', '''')]
       \<and> toObject [''a'', ''b'', ''c''] [''1'', ''2'', ''3'', ''4'']
           = [(''a'', ''1''), (''b'', ''2''), (''c'', ''3'')]
       \<and> toObject [''b'', ''2'', ''a'', ''1''] [''w'', ''x'', ''y'', ''z'']
           = [(''1'', ''z''), (''2'', ''x''), (''b'', ''w''), (''a'', ''y'')]
       \<and> res_rows (fst (parse (''1,2'' @ [LF] @ ''1,2,3,4'')
             (newCSVParser (defaultOptions\<lparr> headersOpt := HList [''a'', ''b'', ''c''] \<rparr>))))
           = [Obj [(''a'', ''1''), (''b'', ''2''), (''c'', '''')],
              Obj [(''a'', ''1''), (''b'', ''2''), (''c'', ''3'')]]"
proof -
  have later: "\<forall>j. i < j \<and> j < length hs \<longrightarrow> hs ! j \<noteq> hs ! i"
  proof (intro allI impI)
    fix j assume j: "i < j \<and> j < length hs"
    then have "hs ! j = drop (Suc i) hs ! (j - Suc i)" by simp
    moreover from j have "j - Suc i < length hs - Suc i"
      by (intro diff_less_mono) auto
    then have "j - Suc i < length (drop (Suc i) hs)" by simp
    ultimately have "hs ! j \<in> set (drop (Suc i) hs)" by (metis nth_mem)
    with assms(2) show "hs ! j \<noteq> hs ! i" by metis
  qed
  have lookup: "map_of (toObject hs r) (hs ! i) = Some (if i < length r then r ! i else [])"
    using toObject_lookup_aux [OF assms(1) assms(3) later, of "fieldOrEmpty r"]
    by (simp add: toObject_def fieldOrEmpty_def)
  have keys: "fst ` set (toObject hs r) = set hs - {''__proto__''}"
    using toObject_keys_aux [of "length hs" hs "fieldOrEmpty r"] by (simp add: toObject_def)
  have cell: "fieldOrEmpty r = (\<lambda>i. if i < length r then r ! i else [])"
    by (rule ext) (simp add: fieldOrEmpty_def)
  have ordered: "distinct hs \<and> ''__proto__'' \<notin> set hs \<and> list_all (\<lambda>k. arrayIndex k = None) hs \<longrightarrow>
            toObject hs r
              = zip hs (map (\<lambda>i. if i < length r then r ! i else []) [0..<length hs])"
    using toObject_plain_aux [of "length hs" hs "fieldOrEmpty r"]
    by (simp add: toObject_def cell)
  have short: "toObject [''a'', ''b'', ''c''] [''1'', ''2'']
           = [(''a'', ''1''), (''b'', ''2''), (''c'', '''')]"
    by code_simp
  have long: "toObject [''a'', ''b'', ''c''] [''1'', ''2'', ''3'', ''4'']
           = [(''a'', ''1''), (''b'', ''2''), (''c'', ''3'')]"
    by code_simp
  have indices: "toObject [''b'', ''2'', ''a'', ''1''] [''w'', ''x'', ''y'', ''z'']
           = [(''1'', ''z''), (''2'', ''x''), (''b'', ''w''), (''a'', ''y'')]"
    by code_simp
  have parsed: "res_rows (fst (parse (''1,2'' @ [LF] @ ''1,2,3,4'')
             (newCSVParser (defaultOptions\<lparr> headersOpt := HList [''a'', ''b'', ''c''] \<rparr>))))
           = [Obj [(''a'', ''1''), (''b'', ''2''), (''c'', '''')],
              Obj [(''a'', ''1''), (''b'', ''2''), (''c'', ''3'')]]"
    by code_simp
  show ?thesis
    by (intro conjI)
       (rule lookup, rule keys, rule ordered, rule short, rule long, rule indices, rule parsed)
qed

theorem header_row_mismatch_policy_witness:
  "map_of (toObject [''a'', ''b'', ''c''] [''1'', ''2'']) ''c'' = Some ''''
   \<and> map_of (toObject [''a'', ''b'', ''a''] [''1'', ''2'', ''3'']) ''a'' = Some ''3''"
proof -
  have h1: "2 < length [''a'', ''b'', ''c'']" by simp
  have h2: "[''a'', ''b'', ''c''] ! 2 \<notin> set (drop (Suc 2) [''a'', ''b'', ''c''])" by simp
  have h3: "[''a'', ''b'', ''c''] ! 2 \<noteq> ''__proto__''" by simp
  have a: "map_of (toObject [''a'', ''b'', ''c''] [''1'', ''2'']) ([''a'', ''b'', ''c''] ! 2)
      = Some (if 2 < length [''1'', ''2''] then [''1'', ''2''] ! 2 else [])"
    using header_row_mismatch_policy [OF h1 h2 h3] by (rule conjunct1)
  have k1: "2 < length [''a'', ''b'', ''a'']" by simp
  have k2: "[''a'', ''b'', ''a''] ! 2 \<notin> set (drop (Suc 2) [''a'', ''b'', ''a''])" by simp
  have k3: "[''a'', ''b'', ''a''] ! 2 \<noteq> ''__proto__''" by simp
  have b: "map_of (toObject [''a'', ''b'', ''a''] [''1'', ''2'', ''3'']) ([''a'', ''b'', ''a''] ! 2)
      = Some (if 2 < length [''1'', ''2'', ''3''] then [''1'', ''2'', ''3''] ! 2 else [])"
    using header_row_mismatch_policy [OF k1 k2 k3] by (rule conjunct1)
  from a b show ?thesis by simp
qed

text \<open>
  The claim as stated binds every header name to the field at its own position. With
  the header \<open>a, a\<close> and the row \<open>1, 2\<close> the second assignment to the key \<open>a\<close> replaces the
  first, and the name at position 0 is bound to \<open>2\<close>, not to \<open>1\<close>. With the header
  \<open>__proto__, b\<close> and the same row, the first assignment creates no property: the object
  is \<open>{b: 2}\<close>, and the name at position 0 is not bound.
\<close>

theorem duplicate_header_name_counterexample:
  "toObject [''a'', ''a''] [''1'', ''2''] = [(''a'', ''2'')]
   \<and> map_of (toObject [''a'', ''a''] [''1'', ''2'']) ([''a'', ''a''] ! 0) \<noteq> Some ([''1'', ''2''] ! 0)
   \<and> res_rows (fst (parse ''1,2''
         (newCSVParser (defaultOptions\<lparr> headersOpt := HList [''a'', ''a''] \<rparr>))))
       = [Obj [(''a'', ''2'')]]
   \<and> toObject [''__proto__'', ''b''] [''1'', ''2''] = [(''b'', ''2'')]
   \<and> map_of (toObject [''__proto__'', ''b''] [''1'', ''2'']) ([''__proto__'', ''b''] ! 0)
       \<noteq> Some ([''1'', ''2''] ! 0)
   \<and> res_rows (fst (parse ''1,2''
         (newCSVParser (defaultOptions\<lparr> headersOpt := HList [''__proto__'', ''b''] \<rparr>))))
       = [Obj [(''b'', ''2'')]]"
proof -
  have a: "toObject [''a'', ''a''] [''1'', ''2''] = [(''a'', ''2'')]" by code_simp
  have b: "map_of (toObject [''a'', ''a''] [''1'', ''2'']) ([''a'', ''a''] ! 0) \<noteq> Some ([''1'', ''2''] ! 0)"
    by (simp add: a)
  have c: "res_rows (fst (parse ''1,2''
         (newCSVParser (defaultOptions\<lparr> headersOpt := HList [''a'', ''a''] \<rparr>))))
       = [Obj [(''a'', ''2'')]]"
    by code_simp
  have d: "toObject [''__proto__'', ''b''] [''1'', ''2''] = [(''b'', ''2'')]" by code_simp
  have e: "map_of (toObject [''__proto__'', ''b''] [''1'', ''2'']) ([''__proto__'', ''b''] ! 0)
       \<noteq> Some ([''1'', ''2''] ! 0)"
    by (simp add: d)
  have f: "res_rows (fst (parse ''1,2''
         (newCSVParser (defaultOptions\<lparr> headersOpt := HList [''__proto__'', ''b''] \<rparr>))))
       = [Obj [(''b'', ''2'')]]"
    by code_simp
  show ?thesis by (intro conjI) (rule a, rule b, rule c, rule d, rule e, rule f)
qed

section \<open>The incremental buffer adapter\<close>

text \<open>
  Where the chunking does not matter: when every chunk after the first is empty or
  starts with a character that is neither the quote string nor a line feed, the session
  ends in the state that \<open>parse\<close> reaches on the concatenated input, for every parser
  and every configuration.
\<close>

lemma safe_chunking:
  assumes "\<forall>chunk \<in> set chunks. safeStart (options p) chunk"
  shows "streamSession (first # chunks) p = parseState (first @ concat chunks) p"
proof -
  have "buffer (parseStream p) = []" by (simp add: parseStream_def reset_def)
  moreover have "options (parseStream p) = options p" by (simp add: parseStream_def reset_def)
  ultimately have "foldl (\<lambda>s chunk. stream_write chunk s)
      (processChunk first (parseStream p)) chunks
      = processChunk (first @ concat chunks) (parseStream p)"
    using assms by (intro writes_join) simp_all
  then show ?thesis
    by (simp add: streamSession_def stream_end_def stream_write_def parseState_def parseStream_def)
qed

text \<open>
  Claim C1 at two chunkings. The look-ahead of \<open>processCharacter\<close> reads
  \<open>this.buffer[this.bufferIndex + 1]\<close>, and \<open>processChunk\<close> empties the buffer after each
  chunk, so at the last character of a chunk the look-ahead is \<open>undefined\<close>. The input
  \<open>"a""b"\<close> parsed whole gives the field \<open>a"b\<close> and no diagnostic; written as the chunks
  \<open>"a"\<close> and \<open>"b"\<close> it gives the field \<open>a"b"\<close> and two diagnostics. Without
  \<open>skipEmptyLines\<close>, the input \<open>a\r\nb\<close> parsed whole gives two rows; written as the chunks
  \<open>a\r\<close> and \<open>\nb\<close> it gives three.
\<close>

theorem chunk_boundary_changes_result:
  "fst (parse ([DQ, CHR ''a'', DQ] @ [DQ, CHR ''b'', DQ]) (newCSVParser defaultOptions))
     = \<lparr> res_headers = None, res_rows = [Fields [[CHR ''a'', DQ, CHR ''b'']]], res_errors = [] \<rparr>
   \<and> emitted (streamSession [[DQ, CHR ''a'', DQ], [DQ, CHR ''b'', DQ]] (newCSVParser defaultOptions))
     = [OnRow (Fields [[CHR ''a'', DQ, CHR ''b'', DQ]]) 0,
        OnEnd 1 [\<lparr> line = 1, column = 4, message = ''Unexpected quote character'' \<rparr>,
                 \<lparr> line = 1, column = 6, message = ''Unexpected quote character'' \<rparr>]]
   \<and> res_rows (fst (parse (''a'' @ [CR] @ [LF] @ ''b'')
         (newCSVParser (defaultOptions\<lparr> skipEmptyLines := False \<rparr>))))
     = [Fields [''a''], Fields [''b'']]
   \<and> rowsOf (emitted (streamSession [''a'' @ [CR], [LF] @ ''b'']
         (newCSVParser (defaultOptions\<lparr> skipEmptyLines := False \<rparr>))))
     = [Fields [''a''], Fields [''''], Fields [''b'']]"
proof -
  have a: "fst (parse ([DQ, CHR ''a'', DQ] @ [DQ, CHR ''b'', DQ]) (newCSVParser defaultOptions))
     = \<lparr> res_headers = None, res_rows = [Fields [[CHR ''a'', DQ, CHR ''b'']]], res_errors = [] \<rparr>"
    by code_simp
  have b: "emitted (streamSession [[DQ, CHR ''a'', DQ], [DQ, CHR ''b'', DQ]] (newCSVParser defaultOptions))
     = [OnRow (Fields [[CHR ''a'', DQ, CHR ''b'', DQ]]) 0,
        OnEnd 1 [\<lparr> line = 1, column = 4, message = ''Unexpected quote character'' \<rparr>,
                 \<lparr> line = 1, column = 6, message = ''Unexpected quote character'' \<rparr>]]"
    by code_simp
  have c: "res_rows (fst (parse (''a'' @ [CR] @ [LF] @ ''b'')
         (newCSVParser (defaultOptions\<lparr> skipEmptyLines := False \<rparr>))))
     = [Fields [''a''], Fields [''b'']]"
    by code_simp
  have d: "rowsOf (emitted (streamSession [''a'' @ [CR], [LF] @ ''b'']
         (newCSVParser (defaultOptions\<lparr> skipEmptyLines := False \<rparr>))))
     = [Fields [''a''], Fields [''''], Fields [''b'']]"
    by code_simp
  show ?thesis by (intro conjI) (rule a, rule b, rule c, rule d)
qed


section \<open>End of input and the diagnostic collector\<close>

text \<open>
  Claim C6. When the input ends inside a quoted field, \<open>finalize\<close> first closes the
  pending row through \<open>endRow\<close> (when the current field is not empty or the current row
  holds a field), then appends the diagnostic "Unclosed quoted field" at the current
  position to the diagnostics recorded so far, and calls \<open>onEnd\<close> with the row count and
  the full list of diagnostics. The pending row becomes the header when the first row is
  awaited as header, and is emitted as a data row otherwise. Every function of the model
  is total and has no error result, so a session always reaches the \<open>onEnd\<close> call, which
  is the last call of every session. \<open>parse\<close> of \<open>"abc\<close> returns the row \<open>abc\<close> and the one
  diagnostic.
\<close>

theorem unclosed_quote_reported:
  assumes "inQuotes p"
  shows "finalize p =
           (let q = (if currentField p \<noteq> [] \<or> currentRow p \<noteq> [] then endRow p else p);
                es = errors p @ [\<lparr> line = currentLine q, column = currentColumn q,
                                   message = ''Unclosed quoted field'' \<rparr>]
            in q\<lparr> errors := es, emitted := emitted q @ [OnEnd (rowIndex q) es] \<rparr>)
       \<and> (currentField p \<noteq> [] \<or> currentRow p \<noteq> [] \<longrightarrow>
            (if headersOpt (options p) = HBool True \<and> headers p = None
             then headers (finalize p) = Some (currentRow p @ [currentField p])
             else rowsOf (emitted (finalize p)) = rowsOf (emitted p) @
                    [case headers (finalize p) of
                       None \<Rightarrow> Fields (currentRow p @ [currentField p])
                     | Some hs \<Rightarrow> Obj (toObject hs (currentRow p @ [currentField p]))]))
       \<and> last (emitted (streamSession chunks p0))
           = OnEnd (rowIndex (streamSession chunks p0)) (errors (streamSession chunks p0))
       \<and> fst (parse ([DQ] @ ''abc'') (newCSVParser defaultOptions))
           = \<lparr> res_headers = None, res_rows = [Fields [''abc'']],
               res_errors = [\<lparr> line = 2, column = 1,
                               message = ''Unclosed quoted field'' \<rparr>] \<rparr>"
proof -
  have fin: "finalize p =
           (let q = (if currentField p \<noteq> [] \<or> currentRow p \<noteq> [] then endRow p else p);
                es = errors p @ [\<lparr> line = currentLine q, column = currentColumn q,
                                   message = ''Unclosed quoted field'' \<rparr>]
            in q\<lparr> errors := es, emitted := emitted q @ [OnEnd (rowIndex q) es] \<rparr>)"
    using assms by (simp add: finalize_def Let_def addError_def)
  have row: "currentField p \<noteq> [] \<or> currentRow p \<noteq> [] \<longrightarrow>
            (if headersOpt (options p) = HBool True \<and> headers p = None
             then headers (finalize p) = Some (currentRow p @ [currentField p])
             else rowsOf (emitted (finalize p)) = rowsOf (emitted p) @
                    [case headers (finalize p) of
                       None \<Rightarrow> Fields (currentRow p @ [currentField p])
                     | Some hs \<Rightarrow> Obj (toObject hs (currentRow p @ [currentField p]))])"
  proof
    assume pending: "currentField p \<noteq> [] \<or> currentRow p \<noteq> []"
    then have fin': "finalize p =
        (endRow p)\<lparr> errors := errors p @ [\<lparr> line = currentLine (endRow p),
                        column = currentColumn (endRow p), message = ''Unclosed quoted field'' \<rparr>],
                    emitted := emitted (endRow p) @ [OnEnd (rowIndex (endRow p))
                       (errors p @ [\<lparr> line = currentLine (endRow p),
                        column = currentColumn (endRow p), message = ''Unclosed quoted field'' \<rparr>])] \<rparr>"
      by (simp add: fin Let_def)
    from pending have keep: "\<not> (length (currentRow p @ [currentField p]) = 1
        \<and> (currentRow p @ [currentField p]) ! 0 = [])"
      by (cases "currentRow p") auto
    show "if headersOpt (options p) = HBool True \<and> headers p = None
             then headers (finalize p) = Some (currentRow p @ [currentField p])
             else rowsOf (emitted (finalize p)) = rowsOf (emitted p) @
                    [case headers (finalize p) of
                       None \<Rightarrow> Fields (currentRow p @ [currentField p])
                     | Some hs \<Rightarrow> Obj (toObject hs (currentRow p @ [currentField p]))]"
      using keep
      by (auto simp add: fin' endRow_def emitRow_def resetRow_def Let_def rowsOf_append
          split: headersOption.splits option.splits)
  qed
  have fin_end: "last (emitted (streamSession chunks p0))
           = OnEnd (rowIndex (streamSession chunks p0)) (errors (streamSession chunks p0))"
    unfolding streamSession_def stream_end_def
    by (subst emitted_finalize) simp
  have example: "fst (parse ([DQ] @ ''abc'') (newCSVParser defaultOptions))
           = \<lparr> res_headers = None, res_rows = [Fields [''abc'']],
               res_errors = [\<lparr> line = 2, column = 1,
                               message = ''Unclosed quoted field'' \<rparr>] \<rparr>"
    by code_simp
  show ?thesis by (intro conjI) (rule fin, rule row, rule fin_end, rule example)
qed

theorem unclosed_quote_reported_witness:
  "finalize ((newCSVParser defaultOptions)
       \<lparr> inQuotes := True, currentField := ''abc'', currentColumn := 5 \<rparr>)
     = (newCSVParser defaultOptions)
       \<lparr> inQuotes := True, currentLine := 2, rowIndex := 1,
         errors := [\<lparr> line = 2, column = 1, message = ''Unclosed quoted field'' \<rparr>],
         emitted := [OnRow (Fields [''abc'']) 0,
            OnEnd 1 [\<lparr> line = 2, column = 1, message = ''Unclosed quoted field'' \<rparr>]] \<rparr>"
proof -
  let ?p = "(newCSVParser defaultOptions)
       \<lparr> inQuotes := True, currentField := ''abc'', currentColumn := 5 \<rparr>"
  have h: "inQuotes ?p" by simp
  have "finalize ?p =
           (let q = (if currentField ?p \<noteq> [] \<or> currentRow ?p \<noteq> [] then endRow ?p else ?p);
                es = errors ?p @ [\<lparr> line = currentLine q, column = currentColumn q,
                                   message = ''Unclosed quoted field'' \<rparr>]
            in q\<lparr> errors := es, emitted := emitted q @ [OnEnd (rowIndex q) es] \<rparr>)"
    using unclosed_quote_reported [OF h] by (rule conjunct1)
  then show ?thesis
    by (simp add: newCSVParser_def defaultOptions_def endRow_def emitRow_def resetRow_def Let_def)
qed

text \<open>
  Claim C4, as amended. At the end of the input, when the text of the current field is
  not empty or the current row already holds a completed field, \<open>finalize\<close> closes the
  field and the row with \<open>endRow\<close>, which is what a line feed outside a quoted field
  does, so a last row without a final newline is emitted. This covers an empty quoted
  field that ends a row with earlier fields: \<open>a,""\<close> gives the row \<open>a\<close>, \<open>""\<close>.
\<close>

theorem finalize_closes_pending_row:
  assumes "currentField p \<noteq> [] \<or> currentRow p \<noteq> []"
  shows "finalize p =
           (let q = endRow p;
                q' = (if inQuotes p then addError ''Unclosed quoted field'' q else q)
            in q'\<lparr> emitted := emitted q' @ [OnEnd (rowIndex q') (errors q')] \<rparr>)
       \<and> (\<not> inQuotes p \<and> [LF] \<noteq> quote (options p) \<and> [LF] \<noteq> delimiter (options p) \<longrightarrow>
            processCharacter LF p = endRow p)
       \<and> fst (parse ''a,b'' (newCSVParser defaultOptions))
           = \<lparr> res_headers = None, res_rows = [Fields [''a'', ''b'']], res_errors = [] \<rparr>
       \<and> fst (parse (''a,'' @ [DQ, DQ]) (newCSVParser defaultOptions))
           = \<lparr> res_headers = None, res_rows = [Fields [''a'', '''']], res_errors = [] \<rparr>"
proof -
  have fin: "finalize p =
           (let q = endRow p;
                q' = (if inQuotes p then addError ''Unclosed quoted field'' q else q)
            in q'\<lparr> emitted := emitted q' @ [OnEnd (rowIndex q') (errors q')] \<rparr>)"
    using assms by (auto simp add: finalize_def Let_def)
  have nl: "\<not> inQuotes p \<and> [LF] \<noteq> quote (options p) \<and> [LF] \<noteq> delimiter (options p) \<longrightarrow>
            processCharacter LF p = endRow p"
    by (simp add: processCharacter_def)
  have ex1: "fst (parse ''a,b'' (newCSVParser defaultOptions))
           = \<lparr> res_headers = None, res_rows = [Fields [''a'', ''b'']], res_errors = [] \<rparr>"
    by code_simp
  have ex2: "fst (parse (''a,'' @ [DQ, DQ]) (newCSVParser defaultOptions))
           = \<lparr> res_headers = None, res_rows = [Fields [''a'', '''']], res_errors = [] \<rparr>"
    by code_simp
  show ?thesis by (intro conjI) (rule fin, rule nl, rule ex1, rule ex2)
qed

theorem finalize_closes_pending_row_witness:
  "finalize ((newCSVParser defaultOptions)\<lparr> currentRow := [''a''], currentColumn := 3 \<rparr>)
     = (newCSVParser defaultOptions)
         \<lparr> currentLine := 2, rowIndex := 1,
           emitted := [OnRow (Fields [''a'', '''']) 0, OnEnd 1 []] \<rparr>
   \<and> processCharacter LF ((newCSVParser defaultOptions)\<lparr> currentRow := [''a''], currentColumn := 3 \<rparr>)
     = (newCSVParser defaultOptions)
         \<lparr> currentLine := 2, rowIndex := 1, emitted := [OnRow (Fields [''a'', '''']) 0] \<rparr>"
proof -
  let ?p = "(newCSVParser defaultOptions)\<lparr> currentRow := [''a''], currentColumn := 3 \<rparr>"
  have h: "currentField ?p \<noteq> [] \<or> currentRow ?p \<noteq> []" by simp
  have a: "finalize ?p =
           (let q = endRow ?p;
                q' = (if inQuotes ?p then addError ''Unclosed quoted field'' q else q)
            in q'\<lparr> emitted := emitted q' @ [OnEnd (rowIndex q') (errors q')] \<rparr>)"
    using finalize_closes_pending_row [OF h] by (rule conjunct1)
  have "\<not> inQuotes ?p \<and> [LF] \<noteq> quote (options ?p) \<and> [LF] \<noteq> delimiter (options ?p) \<longrightarrow>
            processCharacter LF ?p = endRow ?p"
    using finalize_closes_pending_row [OF h] by (rule conjunct1 [OF conjunct2])
  then have b: "processCharacter LF ?p = endRow ?p"
    by (simp add: newCSVParser_def defaultOptions_def)
  have e: "endRow ?p = (newCSVParser defaultOptions)
         \<lparr> currentLine := 2, rowIndex := 1, emitted := [OnRow (Fields [''a'', '''']) 0] \<rparr>"
    by (simp add: newCSVParser_def defaultOptions_def endRow_def emitRow_def resetRow_def Let_def)
  show ?thesis
    by (simp only: a b e Let_def) (simp add: newCSVParser_def)
qed

text \<open>
  The claim as stated covers every last line on which a field was started. A last line
  that consists of an empty quoted field only leaves the current field and the current
  row empty, and \<open>finalize\<close> closes no row for it: without \<open>skipEmptyLines\<close>, the input
  \<open>""\<close> gives no row, and the same input followed by a line feed gives the row of one
  empty field.
\<close>

theorem lone_empty_quoted_field_counterexample:
  "res_rows (fst (parse [DQ, DQ] (newCSVParser (defaultOptions\<lparr> skipEmptyLines := False \<rparr>)))) = []
   \<and> res_rows (fst (parse [DQ, DQ, LF] (newCSVParser (defaultOptions\<lparr> skipEmptyLines := False \<rparr>))))
       = [Fields ['''']]"
proof -
  have a: "res_rows (fst (parse [DQ, DQ] (newCSVParser (defaultOptions\<lparr> skipEmptyLines := False \<rparr>)))) = []"
    by code_simp
  have b: "res_rows (fst (parse [DQ, DQ, LF] (newCSVParser (defaultOptions\<lparr> skipEmptyLines := False \<rparr>))))
       = [Fields ['''']]"
    by code_simp
  show ?thesis by (intro conjI) (rule a, rule b)
qed


section \<open>Explicit header names\<close>

text \<open>
  Claim C3, as amended. With a list of header names in the options, the header is
  unset when a session starts (\<open>reset\<close> clears it) and \<open>endRow\<close> stores the list, and
  reports it by \<open>onHeaders\<close>, at the first row that is not skipped; that row and every
  later one is emitted as a data row keyed by the names. Over a whole session: with \<open>rs\<close>
  the rows that the same chunks give without a header option, the session with the names
  \<open>hs\<close> ends with the header \<open>hs\<close> and one \<open>onHeaders\<close> call when \<open>rs\<close> is not empty, and
  with no header and no such call when it is empty; its \<open>onRow\<close> calls are the rows \<open>rs\<close>
  keyed by \<open>hs\<close>, numbered from 0. The same holds of the result of \<open>parse\<close>.
\<close>

theorem explicit_header_resolved_at_first_row:
  assumes "headersOpt (options p) = HList names" and "headers p = None"
    and "\<not> (skipEmptyLines (options p) \<and> currentRow p = [] \<and> currentField p = [])"
  shows "endRow p = p\<lparr> currentRow := [], currentField := [],
                        currentLine := currentLine p + 1, currentColumn := 1,
                        headers := Some names,
                        emitted := emitted p @
                          [OnHeaders names,
                           OnRow (Obj (toObject names (currentRow p @ [currentField p])))
                             (rowIndex p)],
                        rowIndex := rowIndex p + 1 \<rparr>
       \<and> headers (parseStream p) = None
       \<and> (\<exists>rs. rowsOf (emitted (streamSession chunks
                    (newCSVParser (opts\<lparr> headersOpt := HBool False \<rparr>)))) = map Fields rs
              \<and> headers (streamSession chunks (newCSVParser (opts\<lparr> headersOpt := HList hs \<rparr>)))
                  = (if rs = [] then None else Some hs)
              \<and> emitted (streamSession chunks (newCSVParser (opts\<lparr> headersOpt := HList hs \<rparr>)))
                  = (if rs = [] then [] else [OnHeaders hs])
                    @ map (\<lambda>(i, r). OnRow (Obj (toObject hs r)) i) (enumerate 0 rs)
                    @ [OnEnd (length rs) (errors (streamSession chunks
                         (newCSVParser (opts\<lparr> headersOpt := HList hs \<rparr>))))])
       \<and> (\<exists>rs. res_rows (fst (parse input (newCSVParser (opts\<lparr> headersOpt := HBool False \<rparr>))))
                  = map Fields rs
              \<and> res_headers (fst (parse input (newCSVParser (opts\<lparr> headersOpt := HList hs \<rparr>))))
                  = (if rs = [] then None else Some hs)
              \<and> res_rows (fst (parse input (newCSVParser (opts\<lparr> headersOpt := HList hs \<rparr>))))
                  = map (\<lambda>r. Obj (toObject hs r)) rs)
       \<and> fst (parse (''John,25'' @ [LF] @ ''Jane,30'')
               (newCSVParser (defaultOptions\<lparr> headersOpt := HList [''name'', ''age''] \<rparr>)))
           = \<lparr> res_headers = Some [''name'', ''age''],
               res_rows = [Obj [(''name'', ''John''), (''age'', ''25'')],
                           Obj [(''name'', ''Jane''), (''age'', ''30'')]],
               res_errors = [] \<rparr>"
proof -
  have step: "endRow p = p\<lparr> currentRow := [], currentField := [],
                        currentLine := currentLine p + 1, currentColumn := 1,
                        headers := Some names,
                        emitted := emitted p @
                          [OnHeaders names,
                           OnRow (Obj (toObject names (currentRow p @ [currentField p])))
                             (rowIndex p)],
                        rowIndex := rowIndex p + 1 \<rparr>"
    using assms
    by (cases "currentRow p") (simp_all add: endRow_def emitRow_def resetRow_def Let_def)
  have start: "headers (parseStream p) = None"
    by (simp add: parseStream_def reset_def)
  have stream: "\<exists>rs. rowsOf (emitted (streamSession chunks
                    (newCSVParser (opts\<lparr> headersOpt := HBool False \<rparr>)))) = map Fields rs
              \<and> headers (streamSession chunks (newCSVParser (opts\<lparr> headersOpt := HList hs \<rparr>)))
                  = (if rs = [] then None else Some hs)
              \<and> emitted (streamSession chunks (newCSVParser (opts\<lparr> headersOpt := HList hs \<rparr>)))
                  = (if rs = [] then [] else [OnHeaders hs])
                    @ map (\<lambda>(i, r). OnRow (Obj (toObject hs r)) i) (enumerate 0 rs)
                    @ [OnEnd (length rs) (errors (streamSession chunks
                         (newCSVParser (opts\<lparr> headersOpt := HList hs \<rparr>))))]"
    by (rule explicit_session [where chunks = chunks and opts = opts and names = hs,
          THEN exE]) blast
  have parsed: "\<exists>rs. res_rows (fst (parse input (newCSVParser (opts\<lparr> headersOpt := HBool False \<rparr>))))
                  = map Fields rs
              \<and> res_headers (fst (parse input (newCSVParser (opts\<lparr> headersOpt := HList hs \<rparr>))))
                  = (if rs = [] then None else Some hs)
              \<and> res_rows (fst (parse input (newCSVParser (opts\<lparr> headersOpt := HList hs \<rparr>))))
                  = map (\<lambda>r. Obj (toObject hs r)) rs"
  proof -
    from explicit_session [where chunks = "[input]" and opts = opts and names = hs] obtain rs where
      a: "rowsOf (emitted (streamSession [input] (newCSVParser (opts\<lparr> headersOpt := HBool False \<rparr>))))
          = map Fields rs"
      and b: "headers (streamSession [input] (newCSVParser (opts\<lparr> headersOpt := HList hs \<rparr>)))
          = (if rs = [] then None else Some hs)"
      and c: "rowsOf (emitted (streamSession [input] (newCSVParser (opts\<lparr> headersOpt := HList hs \<rparr>))))
          = map (\<lambda>r. Obj (toObject hs r)) rs"
      by blast
    show ?thesis
      by (rule exI [of _ rs]) (simp add: parse_streamSession a b c)
  qed
  have example: "fst (parse (''John,25'' @ [LF] @ ''Jane,30'')
               (newCSVParser (defaultOptions\<lparr> headersOpt := HList [''name'', ''age''] \<rparr>)))
           = \<lparr> res_headers = Some [''name'', ''age''],
               res_rows = [Obj [(''name'', ''John''), (''age'', ''25'')],
                           Obj [(''name'', ''Jane''), (''age'', ''30'')]],
               res_errors = [] \<rparr>"
    by code_simp
  show ?thesis
    by (intro conjI) (rule step, rule start, rule stream, rule parsed, rule example)
qed

theorem explicit_header_resolved_at_first_row_witness:
  "endRow ((newCSVParser (defaultOptions\<lparr> headersOpt := HList [''name'', ''age''] \<rparr>))
             \<lparr> currentRow := [''John''], currentField := ''25'', currentColumn := 8 \<rparr>)
     = (newCSVParser (defaultOptions\<lparr> headersOpt := HList [''name'', ''age''] \<rparr>))
             \<lparr> currentLine := 2, headers := Some [''name'', ''age''], rowIndex := 1,
               emitted := [OnHeaders [''name'', ''age''],
                           OnRow (Obj [(''name'', ''John''), (''age'', ''25'')]) 0] \<rparr>"
proof -
  let ?p = "(newCSVParser (defaultOptions\<lparr> headersOpt := HList [''name'', ''age''] \<rparr>))
             \<lparr> currentRow := [''John''], currentField := ''25'', currentColumn := 8 \<rparr>"
  have h1: "headersOpt (options ?p) = HList [''name'', ''age'']" by (simp add: newCSVParser_def)
  have h2: "headers ?p = None" by (simp add: newCSVParser_def)
  have h3: "\<not> (skipEmptyLines (options ?p) \<and> currentRow ?p = [] \<and> currentField ?p = [])"
    by simp
  have obj: "toObject [''name'', ''age''] [''John'', ''25''] = [(''name'', ''John''), (''age'', ''25'')]"
    by code_simp
  have "endRow ?p = ?p\<lparr> currentRow := [], currentField := [],
                        currentLine := currentLine ?p + 1, currentColumn := 1,
                        headers := Some [''name'', ''age''],
                        emitted := emitted ?p @
                          [OnHeaders [''name'', ''age''],
                           OnRow (Obj (toObject [''name'', ''age''] (currentRow ?p @ [currentField ?p])))
                             (rowIndex ?p)],
                        rowIndex := rowIndex ?p + 1 \<rparr>"
    using explicit_header_resolved_at_first_row [OF h1 h2 h3] by (rule conjunct1)
  then show ?thesis by (simp add: newCSVParser_def obj)
qed

text \<open>
  The claim as stated has the header resolved at session start, also for an input
  without surviving rows. Right after \<open>parseStream\<close> the header is unset; \<open>parse\<close> of the
  empty input returns no header; a session fed two empty lines makes the \<open>onEnd\<close> call
  only.
\<close>

theorem explicit_header_unresolved_counterexample:
  "headers (parseStream (newCSVParser (defaultOptions\<lparr> headersOpt := HList [''a'', ''b''] \<rparr>))) = None
   \<and> fst (parse [] (newCSVParser (defaultOptions\<lparr> headersOpt := HList [''a'', ''b''] \<rparr>)))
       = \<lparr> res_headers = None, res_rows = [], res_errors = [] \<rparr>
   \<and> emitted (streamSession [[LF], [LF]]
         (newCSVParser (defaultOptions\<lparr> headersOpt := HList [''a'', ''b''] \<rparr>)))
       = [OnEnd 0 []]"
proof -
  have a: "headers (parseStream (newCSVParser (defaultOptions\<lparr> headersOpt := HList [''a'', ''b''] \<rparr>))) = None"
    by (simp add: parseStream_def reset_def)
  have b: "fst (parse [] (newCSVParser (defaultOptions\<lparr> headersOpt := HList [''a'', ''b''] \<rparr>)))
       = \<lparr> res_headers = None, res_rows = [], res_errors = [] \<rparr>"
    by code_simp
  have c: "emitted (streamSession [[LF], [LF]]
         (newCSVParser (defaultOptions\<lparr> headersOpt := HList [''a'', ''b''] \<rparr>)))
       = [OnEnd 0 []]"
    by code_simp
  show ?thesis by (intro conjI) (rule a, rule b, rule c)
qed

end
